theory Spec2Isabelle
  imports Complex_Main
begin

section \<open>Q-CapsNets: the bit-width search of \<open>q_capsnets.py\<close>\<close>

text \<open>
  The development embeds the function \<open>qcapsnets\<close> of \<open>src/q_capsnets.py\<close>. The network,
  its weights and the test set are external: a call of \<open>quantized_test\<close> on a model whose
  weights were quantized with the per-layer bit-widths \<open>w\<close>, with activation bit-widths
  \<open>a\<close> and dynamic-routing bit-widths \<open>d\<close>, is a query \<open>(w, a, d)\<close> to an accuracy oracle.
  Every query is appended to a log, so that the number and the order of the
  evaluations are visible. Python floats are read as real numbers (accuracies are only
  compared, subtracted and scaled), Python integers as \<open>int\<close>.
\<close>

subsection \<open>Python values and exceptions\<close>

datatype error =
    NotImplementedError
  | IndexError
  | ZeroDivisionError
  | UnboundLocalError
  | OverflowError
  | ValueError
  | StopIteration
  | AssertionError

text \<open>\<open>xs[i]\<close> for an index \<open>i \<ge> 0\<close>.\<close>

definition py_index :: "'a list \<Rightarrow> nat \<Rightarrow> error + 'a" where
  "py_index xs i = (if i < length xs then Inr (xs ! i) else Inl IndexError)"

text \<open>\<open>xs[-k]\<close> for \<open>k \<ge> 1\<close>.\<close>

definition py_from_end :: "'a list \<Rightarrow> nat \<Rightarrow> error + 'a" where
  "py_from_end xs k =
     (if 1 \<le> k \<and> k \<le> length xs then Inr (xs ! (length xs - k)) else Inl IndexError)"

text \<open>\<open>int(x)\<close> on a float truncates toward zero.\<close>

definition py_int :: "real \<Rightarrow> int" where
  "py_int x = (if 0 \<le> x then \<lfloor>x\<rfloor> else \<lceil>x\<rceil>)"

text \<open>\<open>next(k for k, val in enumerate(xs) if val)\<close>.\<close>

fun next_true :: "bool list \<Rightarrow> nat \<Rightarrow> error + nat" where
  "next_true [] k = Inl StopIteration"
| "next_true (val # xs) k = (if val then Inr k else next_true xs (Suc k))"

text \<open>\<open>p in s\<close> on strings.\<close>

fun py_in :: "string \<Rightarrow> string \<Rightarrow> bool" where
  "py_in p [] = (p = [])"
| "py_in p (c # cs) = (take (length p) (c # cs) = p \<or> py_in p cs)"

subsection \<open>The model's leaf layers and the accuracy oracle\<close>

record layer =
  numel :: nat
  capsule_layer :: bool
  dynamic_routing :: bool

type_synonym bitwidths = "int list"
type_synonym query = "bitwidths \<times> bitwidths \<times> bitwidths"
type_synonym accuracy_oracle = "query \<Rightarrow> real"
type_synonym log = "query list"

definition quantized_test :: "accuracy_oracle \<Rightarrow> query \<Rightarrow> log \<Rightarrow> real \<times> log" where
  "quantized_test orc q lg = (orc q, lg @ [q])"

definition routing :: "layer \<Rightarrow> bool" where
  "routing c = (capsule_layer c \<and> dynamic_routing c)"

subsection \<open>Sensitivity orderings\<close>

text \<open>
  \<open>sqnr_tuples\<close>: the entries of the weight statistics whose key contains \<open>weight\<close> and
  not \<open>batchnorm\<close>, numbered in file order, sorted by SQNR, highest first
  (\<open>sort(..., reverse=True)\<close> is stable).
\<close>

fun sqnr_collect :: "(string \<times> real) list \<Rightarrow> nat \<Rightarrow> (string \<times> real \<times> nat) list" where
  "sqnr_collect [] i = []"
| "sqnr_collect ((key, v) # rest) i =
     (if py_in ''weight'' key \<and> \<not> py_in ''batchnorm'' key
      then (key, v, i) # sqnr_collect rest (Suc i)
      else sqnr_collect rest i)"

definition sqnr_tuples :: "(string \<times> real) list \<Rightarrow> (string \<times> real \<times> nat) list" where
  "sqnr_tuples info = sort_key (\<lambda>tup. - fst (snd tup)) (sqnr_collect info 0)"

text \<open>
  \<open>act_sqnr_grouped_index\<close>: the activation statistics numbered in file order, sorted by
  SQNR, lowest first, and cut into four groups when there are more than four entries,
  into singletons otherwise.
\<close>

definition act_sqnr_sorted :: "(string \<times> real) list \<Rightarrow> (string \<times> real \<times> nat) list" where
  "act_sqnr_sorted info =
     sort_key (\<lambda>tup. fst (snd tup)) (map (\<lambda>(i, (key, v)). (key, v, i)) (enumerate 0 info))"

definition act_sqnr_grouped_index :: "(string \<times> real) list \<Rightarrow> nat list list" where
  "act_sqnr_grouped_index info =
     (let act_sqnr = act_sqnr_sorted info; n = length act_sqnr in
      if n > 4 then
        (let g = n div 4 in
         [map (\<lambda>i. snd (snd (act_sqnr ! i))) [0..<g],
          map (\<lambda>i. snd (snd (act_sqnr ! i))) [g..<2 * g],
          map (\<lambda>i. snd (snd (act_sqnr ! i))) [2 * g..<3 * g],
          map (\<lambda>i. snd (snd (act_sqnr ! i))) [3 * g..<n]])
      else map (\<lambda>i. [snd (snd (act_sqnr ! i))]) [0..<n])"

subsection \<open>Accuracy floors\<close>

definition minimum_accuracy :: "real \<Rightarrow> real \<Rightarrow> real" where
  "minimum_accuracy top_accuracy accuracy_tolerance =
     top_accuracy - accuracy_tolerance / 100 * top_accuracy"

definition step1_min_acc :: "real \<Rightarrow> real \<Rightarrow> real" where
  "step1_min_acc top_accuracy accuracy_tolerance =
     (let acc_reduction = top_accuracy - minimum_accuracy top_accuracy accuracy_tolerance;
          step1_reduction = 5 / 100 * acc_reduction
      in top_accuracy - step1_reduction)"

subsection \<open>Stage 1: binary search of the uniform bit-width\<close>

definition uniform_query :: "layer list \<Rightarrow> int \<Rightarrow> query" where
  "uniform_query leaves N =
     (replicate (length leaves) N, replicate (length leaves) N,
      replicate (length (filter routing leaves)) N)"

definition step1_quantization_test :: "accuracy_oracle \<Rightarrow> layer list \<Rightarrow> int \<Rightarrow> log \<Rightarrow> real \<times> log" where
  "step1_quantization_test orc leaves N lg = quantized_test orc (uniform_query leaves N) lg"

record step1_result =
  step1_bits :: int
  step1_acc :: real
  step1_bit_search :: "int list"
  step1_acc_list :: "real list"
  step1_bit_search_sat :: "bool list"

text \<open>
  The body of \<open>while True\<close>: test the last candidate, record the accuracy and whether it
  is above the floor; when the last two candidates are one bit apart, select the
  candidate at the position of the last \<open>True\<close>; otherwise append the next candidate,
  half the last distance below (pass) or above (fail) the last one. The pass/fail list
  is reversed for the first \<open>next\<close> and reversed back before the second one, so
  \<open>step1_acc\<close> is read at the position counted from the first \<open>True\<close> of the list in
  its original order.
\<close>

partial_function (option) step1_loop ::
  "accuracy_oracle \<Rightarrow> layer list \<Rightarrow> real \<Rightarrow> int list \<Rightarrow> real list \<Rightarrow> bool list \<Rightarrow> log
     \<Rightarrow> (error + step1_result \<times> log) option" where
  "step1_loop orc leaves min_acc bit_search acc_list sat lg =
     (case py_from_end bit_search 1 of
        Inl e \<Rightarrow> Some (Inl e)
      | Inr cur \<Rightarrow>
          (let (acc, lg1) = step1_quantization_test orc leaves cur lg;
               acc_list1 = acc_list @ [acc];
               sat1 = sat @ [acc > min_acc]
           in case py_from_end bit_search 2 of
                Inl e \<Rightarrow> Some (Inl e)
              | Inr prv \<Rightarrow>
                  if \<bar>cur - prv\<bar> = 1 then
                    (case next_true (rev sat1) 0 of
                       Inl e \<Rightarrow> Some (Inl e)
                     | Inr k \<Rightarrow>
                         (case py_index bit_search (length sat1 - 1 - k) of
                            Inl e \<Rightarrow> Some (Inl e)
                          | Inr b \<Rightarrow>
                              (case next_true sat1 0 of
                                 Inl e \<Rightarrow> Some (Inl e)
                               | Inr k2 \<Rightarrow>
                                   (case py_index acc_list1 (length sat1 - 1 - k2) of
                                      Inl e \<Rightarrow> Some (Inl e)
                                    | Inr a \<Rightarrow>
                                        Some (Inr (\<lparr>step1_bits = b, step1_acc = a,
                                                     step1_bit_search = bit_search,
                                                     step1_acc_list = acc_list1,
                                                     step1_bit_search_sat = sat1\<rparr>,
                                                   lg1))))))
                  else if acc > min_acc then
                    step1_loop orc leaves min_acc
                      (bit_search @ [py_int (real_of_int cur - real_of_int \<bar>cur - prv\<bar> / 2)])
                      acc_list1 sat1 lg1
                  else
                    step1_loop orc leaves min_acc
                      (bit_search @ [py_int (real_of_int cur + real_of_int \<bar>cur - prv\<bar> / 2)])
                      acc_list1 sat1 lg1))"

definition step1 ::
  "accuracy_oracle \<Rightarrow> layer list \<Rightarrow> real \<Rightarrow> log \<Rightarrow> (error + step1_result \<times> log) option" where
  "step1 orc leaves min_acc lg =
     (let (acc, lg1) = step1_quantization_test orc leaves 32 lg in
      if acc > min_acc then step1_loop orc leaves min_acc [32, 16] [acc] [True] lg1
      else Some (Inr (\<lparr>step1_bits = 32, step1_acc = acc, step1_bit_search = [32],
                       step1_acc_list = [acc], step1_bit_search_sat = []\<rparr>, lg1)))"

text \<open>The brute-force linear scan over the bit-widths 1 to 32.\<close>

definition linear_scan :: "(int \<Rightarrow> bool) \<Rightarrow> int option" where
  "linear_scan passes = List.find passes [1..32]"

subsection \<open>Memory arithmetic\<close>

text \<open>\<open>sum([xs[i] * ys[i] for i in range(n)])\<close>.\<close>

definition py_sum_products :: "int list \<Rightarrow> int list \<Rightarrow> nat \<Rightarrow> error + int" where
  "py_sum_products xs ys n =
     (if n \<le> length xs \<and> n \<le> length ys
      then Inr (\<Sum>i\<leftarrow>[0..<n]. xs ! i * ys ! i) else Inl IndexError)"

text \<open>Float division \<open>a / b\<close> of Python numbers.\<close>

definition py_truediv :: "real \<Rightarrow> real \<Rightarrow> error + real" where
  "py_truediv a b = (if b = 0 then Inl ZeroDivisionError else Inr (a / b))"

definition number_of_weights_inlayers :: "layer list \<Rightarrow> int list" where
  "number_of_weights_inlayers leaves = map (\<lambda>c. int (numel c)) leaves"

definition memory_budget_bits :: "real \<Rightarrow> real" where
  "memory_budget_bits memory_budget = memory_budget * 8 * 2 ^ 20"

text \<open>
  \<open>wmem_reduction = tot_memory_b / sum([nums[i] * w[i] for i in range(len(nums))])\<close>,
  after \<open>assert len(nums) == len(w)\<close>.
\<close>

definition wmem_reduction_of :: "int \<Rightarrow> int list \<Rightarrow> bitwidths \<Rightarrow> error + real" where
  "wmem_reduction_of tot_memory_b nums w =
     (if length nums \<noteq> length w then Inl AssertionError
      else case py_sum_products nums w (length nums) of
             Inl e \<Rightarrow> Inl e
           | Inr final_weight_memory_b \<Rightarrow>
               py_truediv (real_of_int tot_memory_b) (real_of_int final_weight_memory_b))"

subsection \<open>Stage 2: the memory budget\<close>

text \<open>
  Raise phase: \<open>while step2_acc < minimum_accuracy\<close>, every weight bit-width goes up by
  one and the model is evaluated again. Nothing bounds the number of rounds.
\<close>

partial_function (option) raise_loop ::
  "accuracy_oracle \<Rightarrow> real \<Rightarrow> bitwidths \<Rightarrow> bitwidths \<Rightarrow> real \<Rightarrow> bitwidths \<Rightarrow> log
     \<Rightarrow> (bitwidths \<times> real \<times> log) option" where
  "raise_loop orc min_acc a d acc w lg =
     (if acc < min_acc then
        (let w1 = map (\<lambda>b. b + 1) w;
             (acc1, lg1) = quantized_test orc (w1, a, d) lg
         in raise_loop orc min_acc a d acc1 w1 lg1)
      else Some (w, acc, lg))"

text \<open>
  Lower phase, inner loop for the layer at index \<open>idx\<close>:
  \<open>while step2_acc > minimum_accuracy and step2_weight_bits[idx] > 1\<close>. The variable
  \<open>prev_step2_acc\<close> is unbound (\<open>None\<close>) until the body has run once.
\<close>

function lower_loop ::
  "accuracy_oracle \<Rightarrow> real \<Rightarrow> bitwidths \<Rightarrow> bitwidths \<Rightarrow> nat \<Rightarrow> bitwidths \<Rightarrow> real
     \<Rightarrow> real option \<Rightarrow> log \<Rightarrow> error + bitwidths \<times> real \<times> real option \<times> log" where
  "lower_loop orc min_acc a d idx w acc prev lg =
     (if acc > min_acc then
        (case py_index w idx of
           Inl e \<Rightarrow> Inl e
         | Inr b \<Rightarrow>
             if b > 1 then
               (let w1 = w[idx := b - 1];
                    prev1 = Some acc;
                    (acc1, lg1) = quantized_test orc (w1, a, d) lg
                in lower_loop orc min_acc a d idx w1 acc1 prev1 lg1)
             else Inr (w, acc, prev, lg))
      else Inr (w, acc, prev, lg))"
  by pat_completeness auto
termination
  by (relation "measure (\<lambda>(orc, min_acc, a, d, idx, w, acc, prev, lg). nat (w ! idx))")
     (auto simp: py_index_def split: if_splits)

declare lower_loop.simps [simp del]

text \<open>
  Lower phase, \<open>for l in sqnr_tuples\<close>: run the inner loop on layer \<open>l[2]\<close>, add one bit
  back, take \<open>prev_step2_acc\<close> as the accuracy, recompute the memory and stop with
  \<open>branchB = False\<close> when it fits. The first component of the result is \<open>branchB\<close>.
\<close>

fun lower_phase ::
  "accuracy_oracle \<Rightarrow> real \<Rightarrow> int list \<Rightarrow> real \<Rightarrow> bitwidths \<Rightarrow> bitwidths
     \<Rightarrow> (string \<times> real \<times> nat) list \<Rightarrow> bitwidths \<Rightarrow> real \<Rightarrow> real option \<Rightarrow> log
     \<Rightarrow> error + bool \<times> bitwidths \<times> real \<times> log" where
  "lower_phase orc min_acc nums budget_bits a d [] w acc prev lg = Inr (True, w, acc, lg)"
| "lower_phase orc min_acc nums budget_bits a d (l # ls) w acc prev lg =
     (case lower_loop orc min_acc a d (snd (snd l)) w acc prev lg of
        Inl e \<Rightarrow> Inl e
      | Inr (w1, acc1, prev1, lg1) \<Rightarrow>
          (case py_index w1 (snd (snd l)) of
             Inl e \<Rightarrow> Inl e
           | Inr b \<Rightarrow>
               (let w2 = w1[snd (snd l) := b + 1] in
                case prev1 of
                  None \<Rightarrow> Inl UnboundLocalError
                | Some acc2 \<Rightarrow>
                    (case py_sum_products w2 nums (length w2) of
                       Inl e \<Rightarrow> Inl e
                     | Inr curr_mem \<Rightarrow>
                         if real_of_int curr_mem \<le> budget_bits
                         then Inr (False, w2, acc2, lg1)
                         else lower_phase orc min_acc nums budget_bits a d ls w2 acc2 prev1 lg1))))"

datatype step2_result =
    Step2_error real
  | Step2_branchB bitwidths real bitwidths real
  | Step2_satisfied bitwidths real

text \<open>
  Stage 2 up to the test of \<open>branchB\<close>. \<open>Step2_error x\<close> is the returned string (with the
  number of megabytes it names), \<open>Step2_branchB mw macc w acc\<close> carries the Model-Memory
  bit-widths and accuracy and the final \<open>step2_weight_bits\<close> and \<open>step2_acc\<close>. With no
  weight at all, \<open>memory_budget_bits / minimum_mem_required\<close> is a numpy division by
  zero (infinity or NaN), on which \<open>math.floor\<close> raises.
\<close>

definition step2 ::
  "accuracy_oracle \<Rightarrow> real \<Rightarrow> int list \<Rightarrow> real \<Rightarrow> (string \<times> real \<times> nat) list
     \<Rightarrow> bitwidths \<Rightarrow> bitwidths \<Rightarrow> bitwidths \<Rightarrow> log \<Rightarrow> (error + step2_result \<times> log) option" where
  "step2 orc min_acc nums memory_budget tuples step1_weight_bits step1_act_bits step1_dr_bits lg =
     (let budget_bits = memory_budget_bits memory_budget;
          minimum_mem_required = sum_list nums
      in if budget_bits < real_of_int minimum_mem_required
         then Some (Inr (Step2_error (real_of_int minimum_mem_required / 8 / 2 ^ 20), lg))
         else if minimum_mem_required = 0
         then Some (Inl (if budget_bits = 0 then ValueError else OverflowError))
         else
           (let b2 = \<lfloor>budget_bits / real_of_int minimum_mem_required\<rfloor>;
                step2_weight_bits = replicate (length step1_weight_bits) b2;
                (step2_acc, lg1) =
                   quantized_test orc (step2_weight_bits, step1_act_bits, step1_dr_bits) lg
            in if step2_acc \<ge> min_acc
               then Some (Inr (Step2_satisfied step2_weight_bits step2_acc, lg1))
               else
                 (case raise_loop orc min_acc step1_act_bits step1_dr_bits step2_acc
                         step2_weight_bits lg1 of
                    None \<Rightarrow> None
                  | Some (w1, acc1, lg2) \<Rightarrow>
                      (case lower_phase orc min_acc nums budget_bits step1_act_bits step1_dr_bits
                              tuples w1 acc1 None lg2 of
                         Inl e \<Rightarrow> Some (Inl e)
                       | Inr (branchB, w2, acc2, lg3) \<Rightarrow>
                           if branchB
                           then Some (Inr (Step2_branchB step2_weight_bits step2_acc w2 acc2, lg3))
                           else Some (Inr (Step2_satisfied w2 acc2, lg3))))))"

subsection \<open>Results\<close>

record config =
  weight_bits :: bitwidths
  act_bits :: bitwidths
  dr_bits :: bitwidths
  accuracy :: real
  wmem_reduction :: real

datatype outcome =
    Budget_error real
  | Two_models config config
  | Satisfied config

text \<open>
  The return under \<open>if branchB\<close>: the Model-Memory configuration first, then the
  configuration the lower phase ended with; the latter is evaluated once more for the
  printout.
\<close>

definition branchB_return ::
  "accuracy_oracle \<Rightarrow> int \<Rightarrow> int list \<Rightarrow> bitwidths \<Rightarrow> bitwidths \<Rightarrow> bitwidths \<Rightarrow> real
     \<Rightarrow> bitwidths \<Rightarrow> real \<Rightarrow> log \<Rightarrow> error + outcome \<times> log" where
  "branchB_return orc tot_memory_b nums a d model_memory_weight_bits model_memory_acc
       step2_weight_bits step2_acc lg =
     (case wmem_reduction_of tot_memory_b nums model_memory_weight_bits of
        Inl e \<Rightarrow> Inl e
      | Inr wmem_reduction_mem \<Rightarrow>
          (let (model_accuracy_acc, lg1) = quantized_test orc (step2_weight_bits, a, d) lg in
           case wmem_reduction_of tot_memory_b nums step2_weight_bits of
             Inl e \<Rightarrow> Inl e
           | Inr wmem_reduction_acc \<Rightarrow>
               Inr (Two_models
                      \<lparr>weight_bits = model_memory_weight_bits, act_bits = a, dr_bits = d,
                        accuracy = model_memory_acc, wmem_reduction = wmem_reduction_mem\<rparr>
                      \<lparr>weight_bits = step2_weight_bits, act_bits = a, dr_bits = d,
                        accuracy = step2_acc, wmem_reduction = wmem_reduction_acc\<rparr>, lg1)))"

subsection \<open>Stage 3A: activations, group by group\<close>

text \<open>
  \<open>for i in range(len(group)): bits[group[i]] -= 1; curr_bits = bits[group[i]]\<close> and the
  matching loop that adds the bit back.
\<close>

fun group_decrement :: "bitwidths \<Rightarrow> nat list \<Rightarrow> int \<Rightarrow> error + bitwidths \<times> int" where
  "group_decrement act [] curr_bits = Inr (act, curr_bits)"
| "group_decrement act (i # rest) curr_bits =
     (case py_index act i of
        Inl e \<Rightarrow> Inl e
      | Inr b \<Rightarrow> group_decrement (act[i := b - 1]) rest (b - 1))"

fun group_increment :: "bitwidths \<Rightarrow> nat list \<Rightarrow> error + bitwidths" where
  "group_increment act [] = Inr act"
| "group_increment act (i # rest) =
     (case py_index act i of
        Inl e \<Rightarrow> Inl e
      | Inr b \<Rightarrow> group_increment (act[i := b + 1]) rest)"

text \<open>
  The \<open>while True\<close> of one group. While the accuracy is at least the group's floor: stop
  if \<open>curr_bits < 3\<close>, else take one bit from every layer of the group and evaluate.
  Below the floor: add the bit back, take \<open>step3a_acc_prev\<close> (unbound until a decrement
  has happened) and stop.
\<close>

partial_function (option) step3a_loop ::
  "accuracy_oracle \<Rightarrow> bitwidths \<Rightarrow> bitwidths \<Rightarrow> nat list \<Rightarrow> real \<Rightarrow> bitwidths \<Rightarrow> int
     \<Rightarrow> real \<Rightarrow> real option \<Rightarrow> log \<Rightarrow> (error + bitwidths \<times> real \<times> real option \<times> log) option" where
  "step3a_loop orc w d grp min_acc act curr_bits acc prev lg =
     (if acc \<ge> min_acc then
        (if curr_bits < 3 then Some (Inr (act, acc, prev, lg))
         else
           (case group_decrement act grp curr_bits of
              Inl e \<Rightarrow> Some (Inl e)
            | Inr (act1, curr_bits1) \<Rightarrow>
                (let prev1 = Some acc;
                     (acc1, lg1) = quantized_test orc (w, act1, d) lg
                 in step3a_loop orc w d grp min_acc act1 curr_bits1 acc1 prev1 lg1)))
      else
        (case group_increment act grp of
           Inl e \<Rightarrow> Some (Inl e)
         | Inr act1 \<Rightarrow>
             (case prev of
                None \<Rightarrow> Some (Inl UnboundLocalError)
              | Some acc1 \<Rightarrow> Some (Inr (act1, acc1, prev, lg)))))"

text \<open>
  \<open>for l in range(len(act_sqnr_grouped_index))\<close>: every group starts from
  \<open>curr_bits = start_bits\<close> and a floor one share lower than the previous one.
\<close>

fun step3a_groups ::
  "accuracy_oracle \<Rightarrow> bitwidths \<Rightarrow> bitwidths \<Rightarrow> int \<Rightarrow> real \<Rightarrow> nat list list \<Rightarrow> real
     \<Rightarrow> bitwidths \<Rightarrow> real \<Rightarrow> real option \<Rightarrow> log \<Rightarrow> (error + bitwidths \<times> real \<times> log) option" where
  "step3a_groups orc w d start_bits per_step [] min_acc act acc prev lg =
     Some (Inr (act, acc, lg))"
| "step3a_groups orc w d start_bits per_step (grp # rest) min_acc act acc prev lg =
     (case step3a_loop orc w d grp (min_acc - per_step) act start_bits acc prev lg of
        None \<Rightarrow> None
      | Some (Inl e) \<Rightarrow> Some (Inl e)
      | Some (Inr (act1, acc1, prev1, lg1)) \<Rightarrow>
          step3a_groups orc w d start_bits per_step rest (min_acc - per_step) act1 acc1 prev1 lg1)"

definition step3a ::
  "accuracy_oracle \<Rightarrow> real \<Rightarrow> nat list list \<Rightarrow> bitwidths \<Rightarrow> bitwidths \<Rightarrow> bitwidths \<Rightarrow> real
     \<Rightarrow> log \<Rightarrow> (error + bitwidths \<times> real \<times> log) option" where
  "step3a orc min_acc groups step2_weight_bits step2_act_bits step2_dr_bits step2_acc lg =
     (let branchA_accuracy_budget = step2_acc - min_acc;
          step3a_accuracy_budget = branchA_accuracy_budget * 55 / 100
      in case py_truediv step3a_accuracy_budget (real (length groups)) of
           Inl e \<Rightarrow> Some (Inl e)
         | Inr step3a_accuracy_budget_per_step \<Rightarrow>
             (case py_index step2_act_bits 0 of
                Inl e \<Rightarrow> Some (Inl e)
              | Inr start_bits \<Rightarrow>
                  step3a_groups orc step2_weight_bits step2_dr_bits start_bits
                    step3a_accuracy_budget_per_step groups step2_acc step2_act_bits step2_acc
                    None lg))"

subsection \<open>Stage 4A: dynamic routing, layer by layer\<close>

text \<open>\<open>for x in range(len(drq)): step4a_dr_bits[pos[x]] = drq[x]\<close>.\<close>

definition update_dr_bits :: "bitwidths \<Rightarrow> nat list \<Rightarrow> bitwidths \<Rightarrow> bitwidths" where
  "update_dr_bits dr pos drq = fold (\<lambda>x bs. bs[pos ! x := drq ! x]) [0..<length drq] dr"

text \<open>
  The \<open>while True\<close> of the routing layer \<open>l\<close>, on \<open>dr_quantization_bits\<close> (\<open>drq\<close>) and
  \<open>step4a_dr_bits\<close> (\<open>dr\<close>).
\<close>

function step4a_loop ::
  "accuracy_oracle \<Rightarrow> bitwidths \<Rightarrow> bitwidths \<Rightarrow> nat list \<Rightarrow> nat \<Rightarrow> real \<Rightarrow> bitwidths
     \<Rightarrow> bitwidths \<Rightarrow> real \<Rightarrow> real option \<Rightarrow> log
     \<Rightarrow> error + bitwidths \<times> bitwidths \<times> real \<times> real option \<times> log" where
  "step4a_loop orc w a pos l min_acc drq dr acc prev lg =
     (if acc \<ge> min_acc then
        (case py_index drq l of
           Inl e \<Rightarrow> Inl e
         | Inr b \<Rightarrow>
             if b < 3 then Inr (drq, dr, acc, prev, lg)
             else
               (let drq1 = drq[l := b - 1];
                    dr1 = update_dr_bits dr pos drq1;
                    prev1 = Some acc;
                    (acc1, lg1) = quantized_test orc (w, a, dr1) lg
                in step4a_loop orc w a pos l min_acc drq1 dr1 acc1 prev1 lg1))
      else
        (case py_index drq l of
           Inl e \<Rightarrow> Inl e
         | Inr b \<Rightarrow>
             (let drq1 = drq[l := b + 1];
                  dr1 = update_dr_bits dr pos drq1
              in case prev of
                   None \<Rightarrow> Inl UnboundLocalError
                 | Some acc1 \<Rightarrow> Inr (drq1, dr1, acc1, prev, lg))))"
  by pat_completeness auto
termination
  by (relation "measure (\<lambda>(orc, w, a, pos, l, min_acc, drq, dr, acc, prev, lg). nat (drq ! l))")
     (auto simp: py_index_def split: if_splits)

declare step4a_loop.simps [simp del]

fun step4a_layers ::
  "accuracy_oracle \<Rightarrow> bitwidths \<Rightarrow> bitwidths \<Rightarrow> nat list \<Rightarrow> real \<Rightarrow> nat list \<Rightarrow> real
     \<Rightarrow> bitwidths \<Rightarrow> bitwidths \<Rightarrow> real \<Rightarrow> real option \<Rightarrow> log
     \<Rightarrow> error + bitwidths \<times> real \<times> log" where
  "step4a_layers orc w a pos per_step [] min_acc drq dr acc prev lg = Inr (dr, acc, lg)"
| "step4a_layers orc w a pos per_step (l # rest) min_acc drq dr acc prev lg =
     (case step4a_loop orc w a pos l (min_acc - per_step) drq dr acc prev lg of
        Inl e \<Rightarrow> Inl e
      | Inr (drq1, dr1, acc1, prev1, lg1) \<Rightarrow>
          step4a_layers orc w a pos per_step rest (min_acc - per_step) drq1 dr1 acc1 prev1 lg1)"

text \<open>
  \<open>dr_quantization_pos\<close> numbers the routing layers \<open>0, 1, ...\<close>;
  \<open>dr_quantization_bits\<close> copies \<open>step4a_dr_bits\<close> at these positions. The budget per
  layer is a division by the number of routing layers.
\<close>

definition step4a ::
  "accuracy_oracle \<Rightarrow> real \<Rightarrow> layer list \<Rightarrow> bitwidths \<Rightarrow> bitwidths \<Rightarrow> bitwidths \<Rightarrow> real
     \<Rightarrow> log \<Rightarrow> error + bitwidths \<times> real \<times> log" where
  "step4a orc min_acc leaves step4a_weight_bits step4a_act_bits step4a_dr_bits step3a_acc lg =
     (let dr_quantization_pos = [0..<length (filter routing leaves)] in
      if \<exists>x\<in>set dr_quantization_pos. \<not> x < length step4a_dr_bits then Inl IndexError
      else
        (let dr_quantization_bits = map (\<lambda>x. step4a_dr_bits ! x) dr_quantization_pos;
             step4a_accuracy_budget = step3a_acc - min_acc
         in case py_truediv step4a_accuracy_budget (real (length dr_quantization_bits)) of
              Inl e \<Rightarrow> Inl e
            | Inr step4a_accuracy_budget_per_step \<Rightarrow>
                step4a_layers orc step4a_weight_bits step4a_act_bits dr_quantization_pos
                  step4a_accuracy_budget_per_step [0..<length dr_quantization_bits] step3a_acc
                  dr_quantization_bits step4a_dr_bits step3a_acc None lg))"

subsection \<open>The whole search\<close>

record model_data =
  leaf_children :: "layer list"
  weights_scale_factors_original :: "(string \<times> real) list"
  act_info_sqnr :: "(string \<times> real) list"
  tot_numer_of_weights :: nat
  quantization_function_activations :: bool
  quantization_function_weights :: bool

text \<open>
  \<open>model_data\<close> is what the search reads from the model and its statistics files: the
  leaf modules in traversal order, the keys of the weight statistics with their SQNR,
  the activation SQNR entries, the number of parameters of the whole model, and whether
  the two quantization functions of the scheme were found.
\<close>

text \<open>
  From \<open>branchA_accuracy_budget\<close> to the final \<open>return\<close>: Stage 3A, Stage 4A and the
  memory reduction of the configuration that is returned.
\<close>

definition branchA ::
  "accuracy_oracle \<Rightarrow> real \<Rightarrow> layer list \<Rightarrow> nat list list \<Rightarrow> int \<Rightarrow> int list
     \<Rightarrow> bitwidths \<Rightarrow> bitwidths \<Rightarrow> bitwidths \<Rightarrow> real \<Rightarrow> log \<Rightarrow> (error + outcome \<times> log) option" where
  "branchA orc min_acc leaves groups tot_memory_b nums step2_weight_bits step2_act_bits
       step2_dr_bits step2_acc lg =
     (case step3a orc min_acc groups step2_weight_bits step2_act_bits step2_dr_bits step2_acc lg of
        None \<Rightarrow> None
      | Some (Inl e) \<Rightarrow> Some (Inl e)
      | Some (Inr (step3a_act_bits, step3a_acc, lg3)) \<Rightarrow>
          (case step4a orc min_acc leaves step2_weight_bits step3a_act_bits step2_dr_bits
                  step3a_acc lg3 of
             Inl e \<Rightarrow> Some (Inl e)
           | Inr (step4a_dr_bits, step4a_acc, lg4) \<Rightarrow>
               (case wmem_reduction_of tot_memory_b nums step2_weight_bits of
                  Inl e \<Rightarrow> Some (Inl e)
                | Inr reduction \<Rightarrow>
                    Some (Inr (Satisfied
                      \<lparr>weight_bits = step2_weight_bits, act_bits = step3a_act_bits,
                        dr_bits = step4a_dr_bits, accuracy = step4a_acc,
                        wmem_reduction = reduction\<rparr>, lg4)))))"

definition qcapsnets ::
  "accuracy_oracle \<Rightarrow> model_data \<Rightarrow> real \<Rightarrow> real \<Rightarrow> real \<Rightarrow> (error + outcome \<times> log) option" where
  "qcapsnets orc md top_accuracy accuracy_tolerance memory_budget =
     (if \<not> quantization_function_activations md then Some (Inl NotImplementedError)
      else if \<not> quantization_function_weights md then Some (Inl NotImplementedError)
      else
        (let leaves = leaf_children md;
             min_acc = minimum_accuracy top_accuracy accuracy_tolerance;
             tot_memory_b = int (tot_numer_of_weights md) * 32;
             nums = number_of_weights_inlayers leaves
         in case step1 orc leaves (step1_min_acc top_accuracy accuracy_tolerance) [] of
              None \<Rightarrow> None
            | Some (Inl e) \<Rightarrow> Some (Inl e)
            | Some (Inr (r1, lg1)) \<Rightarrow>
                (let step1_act_bits = replicate (length leaves) (step1_bits r1);
                     step1_weight_bits = replicate (length leaves) (step1_bits r1);
                     step1_dr_bits = replicate (length (filter routing leaves)) (step1_bits r1)
                 in case step2 orc min_acc nums memory_budget
                           (sqnr_tuples (weights_scale_factors_original md))
                           step1_weight_bits step1_act_bits step1_dr_bits lg1 of
                      None \<Rightarrow> None
                    | Some (Inl e) \<Rightarrow> Some (Inl e)
                    | Some (Inr (Step2_error mb, lg2)) \<Rightarrow> Some (Inr (Budget_error mb, lg2))
                    | Some (Inr (Step2_branchB mw macc w2 acc2, lg2)) \<Rightarrow>
                        Some (branchB_return orc tot_memory_b nums step1_act_bits step1_dr_bits
                                mw macc w2 acc2 lg2)
                    | Some (Inr (Step2_satisfied w2 acc2, lg2)) \<Rightarrow>
                        branchA orc min_acc leaves (act_sqnr_grouped_index (act_info_sqnr md))
                          tot_memory_b nums w2 step1_act_bits step1_dr_bits acc2 lg2)))"

subsection \<open>A model with two layers used as an example\<close>

text \<open>
  A convolutional layer and a capsule layer with routing, 100 weights each. The accuracy
  of the example depends on the weight bit-widths only and is more sensitive to the
  second layer: \<open>60 + w0 / 4 + 5 w1 / 4\<close>.
\<close>

definition two_layer_oracle :: accuracy_oracle where
  "two_layer_oracle q =
     (case fst q of
        [w0, w1] \<Rightarrow> 60 + 1 / 4 * real_of_int w0 + 5 / 4 * real_of_int w1
      | _ \<Rightarrow> 0)"

definition two_layer_model :: model_data where
  "two_layer_model =
     \<lparr>leaf_children = [\<lparr>numel = 100, capsule_layer = False, dynamic_routing = False\<rparr>,
                        \<lparr>numel = 100, capsule_layer = True, dynamic_routing = True\<rparr>],
      weights_scale_factors_original =
        [(''conv.weight'', 9), (''conv.batchnorm.weight'', 1), (''caps.weight'', 5)],
      act_info_sqnr = [(''conv'', 4), (''caps'', 3)],
      tot_numer_of_weights = 200,
      quantization_function_activations = True,
      quantization_function_weights = True\<rparr>"

text \<open>The same model with two convolutional layers: no layer has dynamic routing.\<close>

definition plain_model :: model_data where
  "plain_model =
     \<lparr>leaf_children = [\<lparr>numel = 100, capsule_layer = False, dynamic_routing = False\<rparr>,
                        \<lparr>numel = 100, capsule_layer = True, dynamic_routing = False\<rparr>],
      weights_scale_factors_original =
        [(''conv.weight'', 9), (''conv.batchnorm.weight'', 1), (''caps.weight'', 5)],
      act_info_sqnr = [(''conv'', 4), (''caps'', 3)],
      tot_numer_of_weights = 200,
      quantization_function_activations = True,
      quantization_function_weights = True\<rparr>"

subsection \<open>Notions used to state the properties\<close>

text \<open>The weights after \<open>j\<close> decrements of layer \<open>idx\<close>.\<close>

definition lowered :: "bitwidths \<Rightarrow> nat \<Rightarrow> nat \<Rightarrow> bitwidths" where
  "lowered w idx j = w[idx := w ! idx - int j]"

text \<open>The activation bit-widths after \<open>j\<close> joint decrements of the layers of a group.\<close>

definition lowered_group :: "bitwidths \<Rightarrow> nat list \<Rightarrow> nat \<Rightarrow> bitwidths" where
  "lowered_group act grp j =
     map (\<lambda>i. if i \<in> set grp then act ! i - int j else act ! i) [0..<length act]"

text \<open>The configurations that an outcome carries.\<close>

fun returned_configs :: "outcome \<Rightarrow> config list" where
  "returned_configs (Budget_error mb) = []"
| "returned_configs (Two_models c1 c2) = [c1, c2]"
| "returned_configs (Satisfied c) = [c]"

text \<open>
  The element of \<open>xs\<close> at the position of the last \<open>True\<close> of \<open>sat\<close>, computed as Stage 1
  does: reverse, take the first \<open>True\<close>, index from the end.
\<close>

definition selected :: "'a list \<Rightarrow> bool list \<Rightarrow> error + 'a" where
  "selected xs sat =
     (case next_true (rev sat) 0 of
        Inl e \<Rightarrow> Inl e
      | Inr k \<Rightarrow> py_index xs (length sat - 1 - k))"

subsection \<open>A small model used as an example\<close>

text \<open>
  The accuracy of the example grows linearly with the bit-width of the first layer's
  weights: \<open>60 + 1.5 b\<close>.
\<close>

definition demo_oracle :: accuracy_oracle where
  "demo_oracle q = (case fst q of [] \<Rightarrow> 0 | b # _ \<Rightarrow> 60 + 3 / 2 * real_of_int b)"

definition demo_leaf :: layer where
  "demo_leaf = \<lparr>numel = 100, capsule_layer = True, dynamic_routing = True\<rparr>"

section \<open>Stage 1 finds a locally minimal passing bit-width\<close>

lemma next_true_Suc: "next_true xs (Suc k) = map_sum id Suc (next_true xs k)"
  by (induction xs arbitrary: k) auto

lemma next_true_bound: "next_true xs k = Inr r \<Longrightarrow> k \<le> r \<and> r < k + length xs"
proof (induction xs arbitrary: k)
  case Nil
  then show ?case by simp
next
  case (Cons a xs)
  then show ?case by (cases a) (auto dest: Cons.IH)
qed

lemma selected_snoc:
  assumes "length xs = length sat"
  shows "selected (xs @ [x]) (sat @ [b]) = (if b then Inr x else selected xs sat)"
proof (cases b)
  case True
  then show ?thesis using assms by (simp add: selected_def py_index_def nth_append)
next
  case False
  show ?thesis
  proof (cases "next_true (rev sat) 0")
    case (Inl e)
    then show ?thesis using False by (simp add: selected_def next_true_Suc[of _ 0])
  next
    case (Inr k)
    then have "k < length sat" using next_true_bound[of "rev sat" 0 k] by simp
    then show ?thesis using False Inr assms
      by (simp add: selected_def next_true_Suc[of _ 0] py_index_def nth_append)
  qed
qed

lemma py_from_end_snoc:
  "py_from_end (xs @ [x]) 1 = Inr x"
  "xs \<noteq> [] \<Longrightarrow> py_from_end (xs @ [x]) 2 = Inr (last xs)"
proof -
  show "py_from_end (xs @ [x]) 1 = Inr x" by (simp add: py_from_end_def)
  assume "xs \<noteq> []"
  then obtain ys y where "xs = ys @ [y]" by (metis rev_exhaust)
  then show "py_from_end (xs @ [x]) 2 = Inr (last xs)"
    by (simp add: py_from_end_def nth_append)
qed

lemma py_int_of_int [simp]: "py_int (real_of_int a) = a"
  by (simp add: py_int_def)

lemma half_pow: "real_of_int c - real_of_int (2 ^ Suc j) / 2 = real_of_int (c - 2 ^ j)"
  "real_of_int c + real_of_int (2 ^ Suc j) / 2 = real_of_int (c + 2 ^ j)"
  by simp_all

lemma step1_loop_inv:
  fixes orc :: accuracy_oracle and leaves m
  defines "u \<equiv> \<lambda>N. orc (uniform_query leaves N)"
  assumes len: "length hist = length sat" "length acc_list = length sat"
    and pk: "selected hist sat = Inr hi" "sat \<noteq> [] \<and> hd sat"
    and ne: "hist \<noteq> []"
    and prv: "last hist = hi \<or> last hist = hi - 2 ^ Suc j"
    and cur: "cur = hi - 2 ^ j"
    and hi: "m < u hi"
    and lo: "hi - 2 ^ Suc j = 0 \<or> \<not> m < u (hi - 2 ^ Suc j)" "0 \<le> hi - 2 ^ Suc j"
    and low: "\<forall>i<length hist. sat ! i \<longrightarrow> hi \<le> hist ! i"
  shows "\<exists>r lg'. step1_loop orc leaves m (hist @ [cur]) acc_list sat lg = Some (Inr (r, lg'))
      \<and> hi - 2 ^ Suc j < step1_bits r \<and> step1_bits r \<le> hi
      \<and> m < u (step1_bits r) \<and> (step1_bits r = 1 \<or> \<not> m < u (step1_bits r - 1))
      \<and> step1_acc r = u (last (step1_bit_search r))
      \<and> length (step1_bit_search r) = length (step1_bit_search_sat r)
      \<and> selected (step1_bit_search r) (step1_bit_search_sat r) = Inr (step1_bits r)
      \<and> (\<forall>i<length (step1_bit_search r).
            step1_bit_search_sat r ! i \<longrightarrow> step1_bits r \<le> step1_bit_search r ! i)"
  using len pk ne prv cur hi lo low
proof (induction j arbitrary: hist sat acc_list cur hi lg)
  case 0
  let ?sat1 = "sat @ [m < u cur]"
  let ?acc1 = "acc_list @ [u cur]"
  let ?hist1 = "hist @ [cur]"
  have e1: "py_from_end ?hist1 1 = Inr cur" by (rule py_from_end_snoc)
  have e2: "py_from_end ?hist1 2 = Inr (last hist)"
    using "0.prems"(5) by (rule py_from_end_snoc)
  have d: "\<bar>cur - last hist\<bar> = 1" using "0.prems"(6,7) by auto
  have pb: "selected ?hist1 ?sat1 = (if m < u cur then Inr cur else Inr hi)"
    using selected_snoc[of hist sat cur "m < u cur"] "0.prems"(1,3) by simp
  have pa: "next_true ?sat1 0 = Inr 0" "py_index ?acc1 (length ?sat1 - 1 - 0) = Inr (u cur)"
  proof -
    obtain x xs where sat: "sat = x # xs" using "0.prems"(4) by (cases sat) auto
    then have "x" using "0.prems"(4) by simp
    then show "next_true ?sat1 0 = Inr 0" by (simp add: sat)
    show "py_index ?acc1 (length ?sat1 - 1 - 0) = Inr (u cur)"
      using "0.prems"(2) nth_append_length[of acc_list "u cur" "[]"]
      by (simp add: py_index_def)
  qed
  have lens: "length ?sat1 = length ?hist1" using "0.prems"(1) by simp
  show ?case
  proof (cases "m < u cur")
    case True
    obtain k where k: "next_true (rev ?sat1) 0 = Inr k"
      "py_index ?hist1 (length ?sat1 - 1 - k) = Inr cur"
      using pb True by (auto simp: selected_def split: sum.splits)
    have "step1_loop orc leaves m ?hist1 acc_list sat lg =
       Some (Inr (\<lparr>step1_bits = cur, step1_acc = u cur, step1_bit_search = ?hist1,
                    step1_acc_list = ?acc1, step1_bit_search_sat = ?sat1\<rparr>,
                  lg @ [uniform_query leaves cur]))"
      apply (subst step1_loop.simps)
      using e1 e2 d k pa
      by (simp add: step1_quantization_test_def quantized_test_def u_def)
    moreover have "\<forall>i<length ?hist1. ?sat1 ! i \<longrightarrow> cur \<le> ?hist1 ! i"
      using "0.prems"(1,7,11) by (auto simp: nth_append)
    ultimately show ?thesis using True "0.prems"(1,7,9,10) pb lens
      by auto
  next
    case False
    obtain k where k: "next_true (rev ?sat1) 0 = Inr k"
      "py_index ?hist1 (length ?sat1 - 1 - k) = Inr hi"
      using pb False by (auto simp: selected_def split: sum.splits)
    have "step1_loop orc leaves m ?hist1 acc_list sat lg =
       Some (Inr (\<lparr>step1_bits = hi, step1_acc = u cur, step1_bit_search = ?hist1,
                    step1_acc_list = ?acc1, step1_bit_search_sat = ?sat1\<rparr>,
                  lg @ [uniform_query leaves cur]))"
      apply (subst step1_loop.simps)
      using e1 e2 d k pa
      by (simp add: step1_quantization_test_def quantized_test_def u_def)
    moreover have "\<forall>i<length ?hist1. ?sat1 ! i \<longrightarrow> hi \<le> ?hist1 ! i"
      using "0.prems"(1,7,11) False by (auto simp: nth_append)
    ultimately show ?thesis using False "0.prems"(1,7,8,9,10) pb lens
      by auto
  qed
next
  case (Suc j)
  let ?sat1 = "sat @ [m < u cur]"
  let ?acc1 = "acc_list @ [u cur]"
  let ?hist1 = "hist @ [cur]"
  have pw: "(0::int) < 2 ^ j" by simp
  have cur_hi: "cur \<le> hi" "cur - 2 ^ Suc j = hi - 2 ^ Suc (Suc j)"
    "cur + 2 ^ j = hi - 2 ^ j" "hi - 2 ^ Suc (Suc j) \<le> cur"
    using pw Suc.prems(7) unfolding power_Suc by linarith+
  have cur0: "0 \<le> cur" using pw Suc.prems(7,10) unfolding power_Suc by linarith
  have e1: "py_from_end ?hist1 1 = Inr cur" by (rule py_from_end_snoc)
  have e2: "py_from_end ?hist1 2 = Inr (last hist)"
    using Suc.prems(5) by (rule py_from_end_snoc)
  have d: "\<bar>cur - last hist\<bar> = 2 ^ Suc j" using Suc.prems(6,7) by auto
  have "even ((2::int) ^ Suc j)" by simp
  then have "(2::int) ^ Suc j \<noteq> 1" by (metis odd_one)
  then have d1: "\<bar>cur - last hist\<bar> \<noteq> 1" unfolding d .
  have nxt: "py_int (real_of_int cur - real_of_int \<bar>cur - last hist\<bar> / 2) = cur - 2 ^ j"
    "py_int (real_of_int cur + real_of_int \<bar>cur - last hist\<bar> / 2) = cur + 2 ^ j"
    unfolding d half_pow by (rule py_int_of_int)+
  have pb: "selected ?hist1 ?sat1 = (if m < u cur then Inr cur else Inr hi)"
    using selected_snoc[of hist sat cur "m < u cur"] Suc.prems(1,3) by simp
  have pa: "?sat1 \<noteq> [] \<and> hd ?sat1"
    using Suc.prems(4) by (cases sat) simp_all
  have l1: "length ?hist1 = length ?sat1" "length ?acc1 = length ?sat1" "?hist1 \<noteq> []"
    using Suc.prems(1,2) by simp_all
  show ?case
  proof (cases "m < u cur")
    case True
    have unf: "step1_loop orc leaves m ?hist1 acc_list sat lg =
       step1_loop orc leaves m (?hist1 @ [cur - 2 ^ j]) ?acc1 ?sat1 (lg @ [uniform_query leaves cur])"
      apply (subst step1_loop.simps)
      using e1 e2 d1 True nxt
      by (simp add: step1_quantization_test_def quantized_test_def u_def)
    have low': "\<forall>i<length ?hist1. ?sat1 ! i \<longrightarrow> cur \<le> ?hist1 ! i"
      using Suc.prems(1,11) cur_hi(1) by (fastforce simp: nth_append)
    have "\<exists>r lg'. step1_loop orc leaves m (?hist1 @ [cur - 2 ^ j]) ?acc1 ?sat1
            (lg @ [uniform_query leaves cur]) = Some (Inr (r, lg'))
      \<and> cur - 2 ^ Suc j < step1_bits r \<and> step1_bits r \<le> cur
      \<and> m < u (step1_bits r) \<and> (step1_bits r = 1 \<or> \<not> m < u (step1_bits r - 1))
      \<and> step1_acc r = u (last (step1_bit_search r))
      \<and> length (step1_bit_search r) = length (step1_bit_search_sat r)
      \<and> selected (step1_bit_search r) (step1_bit_search_sat r) = Inr (step1_bits r)
      \<and> (\<forall>i<length (step1_bit_search r).
            step1_bit_search_sat r ! i \<longrightarrow> step1_bits r \<le> step1_bit_search r ! i)"
    proof (rule Suc.IH[folded u_def, OF l1(1) l1(2) _ _ l1(3) _ refl _ _ _ low'])
      show "selected ?hist1 ?sat1 = Inr cur" using pb True by simp
      show "?sat1 \<noteq> [] \<and> hd ?sat1" by (rule pa)
      show "last ?hist1 = cur \<or> last ?hist1 = cur - 2 ^ Suc j" by simp
      show "m < u cur" by (rule True)
      show "cur - 2 ^ Suc j = 0 \<or> \<not> m < u (cur - 2 ^ Suc j)"
        unfolding cur_hi(2) by (rule Suc.prems(9))
      show "0 \<le> cur - 2 ^ Suc j" unfolding cur_hi(2) by (rule Suc.prems(10))
    qed
    then obtain r lg' where r: "step1_loop orc leaves m (?hist1 @ [cur - 2 ^ j]) ?acc1 ?sat1
            (lg @ [uniform_query leaves cur]) = Some (Inr (r, lg'))"
      "cur - 2 ^ Suc j < step1_bits r" "step1_bits r \<le> cur"
      "m < u (step1_bits r)" "step1_bits r = 1 \<or> \<not> m < u (step1_bits r - 1)"
      "step1_acc r = u (last (step1_bit_search r))"
      "length (step1_bit_search r) = length (step1_bit_search_sat r)"
      "selected (step1_bit_search r) (step1_bit_search_sat r) = Inr (step1_bits r)"
      "\<forall>i<length (step1_bit_search r).
            step1_bit_search_sat r ! i \<longrightarrow> step1_bits r \<le> step1_bit_search r ! i"
      by blast
    have "hi - 2 ^ Suc (Suc j) < step1_bits r" "step1_bits r \<le> hi"
      using r(2,3) cur_hi(1,2) by linarith+
    then show ?thesis unfolding unf using r by blast
  next
    case False
    have unf: "step1_loop orc leaves m ?hist1 acc_list sat lg =
       step1_loop orc leaves m (?hist1 @ [cur + 2 ^ j]) ?acc1 ?sat1 (lg @ [uniform_query leaves cur])"
      apply (subst step1_loop.simps)
      using e1 e2 d1 False nxt
      by (simp add: step1_quantization_test_def quantized_test_def u_def)
    have low': "\<forall>i<length ?hist1. ?sat1 ! i \<longrightarrow> hi \<le> ?hist1 ! i"
      using Suc.prems(1,11) False by (auto simp: nth_append)
    have "\<exists>r lg'. step1_loop orc leaves m (?hist1 @ [cur + 2 ^ j]) ?acc1 ?sat1
            (lg @ [uniform_query leaves cur]) = Some (Inr (r, lg'))
      \<and> hi - 2 ^ Suc j < step1_bits r \<and> step1_bits r \<le> hi
      \<and> m < u (step1_bits r) \<and> (step1_bits r = 1 \<or> \<not> m < u (step1_bits r - 1))
      \<and> step1_acc r = u (last (step1_bit_search r))
      \<and> length (step1_bit_search r) = length (step1_bit_search_sat r)
      \<and> selected (step1_bit_search r) (step1_bit_search_sat r) = Inr (step1_bits r)
      \<and> (\<forall>i<length (step1_bit_search r).
            step1_bit_search_sat r ! i \<longrightarrow> step1_bits r \<le> step1_bit_search r ! i)"
    proof (rule Suc.IH[folded u_def, OF l1(1) l1(2) _ _ l1(3) _ cur_hi(3) Suc.prems(8) _ _ low'])
      show "selected ?hist1 ?sat1 = Inr hi" using pb False by simp
      show "?sat1 \<noteq> [] \<and> hd ?sat1" by (rule pa)
      show "last ?hist1 = hi \<or> last ?hist1 = hi - 2 ^ Suc j" using Suc.prems(7) by simp
      show "hi - 2 ^ Suc j = 0 \<or> \<not> m < u (hi - 2 ^ Suc j)"
        using False unfolding Suc.prems(7) by simp
      show "0 \<le> hi - 2 ^ Suc j" using cur0 unfolding Suc.prems(7) .
    qed
    then obtain r lg' where r: "step1_loop orc leaves m (?hist1 @ [cur + 2 ^ j]) ?acc1 ?sat1
            (lg @ [uniform_query leaves cur]) = Some (Inr (r, lg'))"
      "hi - 2 ^ Suc j < step1_bits r" "step1_bits r \<le> hi"
      "m < u (step1_bits r)" "step1_bits r = 1 \<or> \<not> m < u (step1_bits r - 1)"
      "step1_acc r = u (last (step1_bit_search r))"
      "length (step1_bit_search r) = length (step1_bit_search_sat r)"
      "selected (step1_bit_search r) (step1_bit_search_sat r) = Inr (step1_bits r)"
      "\<forall>i<length (step1_bit_search r).
            step1_bit_search_sat r ! i \<longrightarrow> step1_bits r \<le> step1_bit_search r ! i"
      by blast
    have "hi - 2 ^ Suc (Suc j) < step1_bits r"
      using r(2) cur_hi(4) Suc.prems(7) by linarith
    then show ?thesis unfolding unf using r by blast
  qed
qed

lemma find_skip_failing:
  "\<forall>x\<in>set xs. \<not> P x \<Longrightarrow> List.find P (xs @ ys) = List.find P ys"
  by (induction xs) simp_all

lemma find_upto_least:
  assumes "lo \<le> c" "c \<le> hi" "P c" "\<forall>a. lo \<le> a \<and> a < c \<longrightarrow> \<not> P a"
  shows "List.find P [lo..hi] = Some c"
proof -
  have "[lo..hi] = [lo..c - 1] @ c # [c + 1..hi]"
    using assms(1,2) upto_split2[of lo c hi] upto_rec2[of lo c] by simp
  moreover have "\<forall>x\<in>set [lo..c - 1]. \<not> P x" using assms(4) by auto
  ultimately show ?thesis using assms(3) by (simp add: find_skip_failing)
qed

lemma selected_last_true:
  assumes "length xs = length sat" "selected xs sat = Inr b"
  shows "\<exists>i<length xs. xs ! i = b \<and> sat ! i \<and> (\<forall>j. i < j \<and> j < length sat \<longrightarrow> \<not> sat ! j)"
  using assms
proof (induction sat arbitrary: xs rule: rev_induct)
  case Nil
  then show ?case by (simp add: selected_def)
next
  case (snoc s sat)
  then obtain ys y where xs: "xs = ys @ [y]" "length ys = length sat"
    by (metis length_append_singleton length_Suc_conv_rev)
  show ?case
  proof (cases s)
    case True
    then have "b = y" using snoc.prems(2) xs selected_snoc[of ys sat y s] by simp
    then show ?thesis using True xs by (auto simp: nth_append intro!: exI[of _ "length sat"])
  next
    case False
    then have "selected ys sat = Inr b"
      using snoc.prems(2) xs selected_snoc[of ys sat y s] by simp
    from snoc.IH[OF xs(2) this] obtain i where i: "i < length ys" "ys ! i = b" "sat ! i"
      "\<forall>j. i < j \<and> j < length sat \<longrightarrow> \<not> sat ! j" by blast
    have "\<forall>j. i < j \<and> j < length (sat @ [s]) \<longrightarrow> \<not> (sat @ [s]) ! j"
      using i(4) False by (auto simp: nth_append)
    then show ?thesis using i xs by (auto simp: nth_append intro!: exI[of _ i])
  qed
qed

lemma step1_returns:
  fixes orc :: accuracy_oracle
  assumes p32: "m < orc (uniform_query leaves 32)"
  shows "\<exists>r lg'. step1 orc leaves m lg = Some (Inr (r, lg'))
      \<and> 1 \<le> step1_bits r \<and> step1_bits r \<le> 32
      \<and> m < orc (uniform_query leaves (step1_bits r))
      \<and> (step1_bits r = 1 \<or> \<not> m < orc (uniform_query leaves (step1_bits r - 1)))
      \<and> step1_acc r = orc (uniform_query leaves (last (step1_bit_search r)))
      \<and> length (step1_bit_search r) = length (step1_bit_search_sat r)
      \<and> selected (step1_bit_search r) (step1_bit_search_sat r) = Inr (step1_bits r)
      \<and> (\<forall>i<length (step1_bit_search r).
            step1_bit_search_sat r ! i \<longrightarrow> step1_bits r \<le> step1_bit_search r ! i)"
proof -
  have s: "step1 orc leaves m lg =
     step1_loop orc leaves m ([32] @ [16]) [orc (uniform_query leaves 32)] [True]
       (lg @ [uniform_query leaves 32])"
    using p32 by (simp add: step1_def step1_quantization_test_def quantized_test_def)
  have "\<exists>r lg'. step1_loop orc leaves m ([32] @ [16]) [orc (uniform_query leaves 32)] [True]
       (lg @ [uniform_query leaves 32]) = Some (Inr (r, lg'))
      \<and> 32 - 2 ^ Suc 4 < step1_bits r \<and> step1_bits r \<le> 32
      \<and> m < orc (uniform_query leaves (step1_bits r))
      \<and> (step1_bits r = 1 \<or> \<not> m < orc (uniform_query leaves (step1_bits r - 1)))
      \<and> step1_acc r = orc (uniform_query leaves (last (step1_bit_search r)))
      \<and> length (step1_bit_search r) = length (step1_bit_search_sat r)
      \<and> selected (step1_bit_search r) (step1_bit_search_sat r) = Inr (step1_bits r)
      \<and> (\<forall>i<length (step1_bit_search r).
            step1_bit_search_sat r ! i \<longrightarrow> step1_bits r \<le> step1_bit_search r ! i)"
    by (rule step1_loop_inv) (use p32 in \<open>simp_all add: selected_def py_index_def\<close>)
  then show ?thesis unfolding s by fastforce
qed

lemma step1_fails_at_32:
  fixes orc :: accuracy_oracle
  assumes "\<not> m < orc (uniform_query leaves 32)"
  shows "step1 orc leaves m lg =
     Some (Inr (\<lparr>step1_bits = 32, step1_acc = orc (uniform_query leaves 32),
                  step1_bit_search = [32], step1_acc_list = [orc (uniform_query leaves 32)],
                  step1_bit_search_sat = []\<rparr>, lg @ [uniform_query leaves 32]))"
  using assms by (simp add: step1_def step1_quantization_test_def quantized_test_def)

lemma step1_total:
  "\<exists>r lg'. step1 orc leaves m lg = Some (Inr (r, lg')) \<and> 1 \<le> step1_bits r \<and> step1_bits r \<le> 32"
proof (cases "m < orc (uniform_query leaves 32)")
  case True
  from step1_returns[where orc=orc and leaves=leaves and m=m and lg=lg, OF True] show ?thesis by blast
next
  case False
  then show ?thesis by (simp add: step1_fails_at_32)
qed

text \<open>
  Claim C1. Let the accuracy of the uniformly quantized model be non-decreasing in the
  bit-width on 1..32, and let the accuracy at 32 bits pass the Stage 1 floor
  \<open>A0 - 0.05 (A0 - minAcc)\<close>, where passing is the test the search makes: strictly above
  the floor. Then the binary search returns, and the bit-width it returns is the result
  of the linear scan over 1..32 for the first passing bit-width. In the recorded history
  the returned candidate stands at the position of the last \<open>True\<close> (the most recently
  tried passing candidate) and no tried passing candidate has fewer bits. The accuracy
  reported with it, \<open>step1_acc\<close>, is the one of the last candidate tried, which need not
  be the returned one; nothing after Stage 1 reads it.
\<close>

theorem stage1_binary_search_minimal:
  fixes orc :: accuracy_oracle
  assumes mono: "\<forall>a b. 1 \<le> a \<and> a \<le> b \<and> b \<le> 32 \<longrightarrow>
                   orc (uniform_query leaves a) \<le> orc (uniform_query leaves b)"
    and p32: "step1_min_acc top_accuracy accuracy_tolerance < orc (uniform_query leaves 32)"
  shows "step1_min_acc top_accuracy accuracy_tolerance =
           top_accuracy - 0.05 * (top_accuracy - minimum_accuracy top_accuracy accuracy_tolerance)
       \<and> (\<exists>r lg'. step1 orc leaves (step1_min_acc top_accuracy accuracy_tolerance) lg
                    = Some (Inr (r, lg'))
            \<and> linear_scan (\<lambda>N. step1_min_acc top_accuracy accuracy_tolerance
                                  < orc (uniform_query leaves N)) = Some (step1_bits r)
            \<and> step1_acc r = orc (uniform_query leaves (last (step1_bit_search r)))
            \<and> (\<exists>i<length (step1_bit_search r).
                  step1_bit_search r ! i = step1_bits r \<and> step1_bit_search_sat r ! i
                  \<and> (\<forall>j. i < j \<and> j < length (step1_bit_search_sat r)
                        \<longrightarrow> \<not> step1_bit_search_sat r ! j))
            \<and> (\<forall>i<length (step1_bit_search r).
                  step1_bit_search_sat r ! i \<longrightarrow> step1_bits r \<le> step1_bit_search r ! i))"
proof -
  let ?m = "step1_min_acc top_accuracy accuracy_tolerance"
  let ?P = "\<lambda>N. ?m < orc (uniform_query leaves N)"
  from step1_returns[where orc=orc and leaves=leaves and lg=lg
      and m="step1_min_acc top_accuracy accuracy_tolerance", OF p32] obtain r lg' where
    r: "step1 orc leaves ?m lg = Some (Inr (r, lg'))"
      "1 \<le> step1_bits r" "step1_bits r \<le> 32" "?P (step1_bits r)"
      "step1_bits r = 1 \<or> \<not> ?P (step1_bits r - 1)"
      "step1_acc r = orc (uniform_query leaves (last (step1_bit_search r)))"
      "length (step1_bit_search r) = length (step1_bit_search_sat r)"
      "selected (step1_bit_search r) (step1_bit_search_sat r) = Inr (step1_bits r)"
      "\<forall>i<length (step1_bit_search r).
            step1_bit_search_sat r ! i \<longrightarrow> step1_bits r \<le> step1_bit_search r ! i"
    by blast
  have below: "\<forall>a. 1 \<le> a \<and> a < step1_bits r \<longrightarrow> \<not> ?P a"
  proof (intro allI impI)
    fix a assume a: "1 \<le> a \<and> a < step1_bits r"
    then have "step1_bits r \<noteq> 1" by simp
    then have n: "\<not> ?P (step1_bits r - 1)" using r(5) by simp
    have "orc (uniform_query leaves a) \<le> orc (uniform_query leaves (step1_bits r - 1))"
      using mono a r(3) by simp
    then show "\<not> ?P a" using n by simp
  qed
  have scan: "linear_scan ?P = Some (step1_bits r)"
    unfolding linear_scan_def by (rule find_upto_least[OF r(2) r(3) r(4) below])
  have formula: "?m = top_accuracy - 0.05 * (top_accuracy - minimum_accuracy top_accuracy accuracy_tolerance)"
    by (simp add: step1_min_acc_def Let_def)
  show ?thesis
    using formula r(1) scan r(6) selected_last_true[OF r(7) r(8)] r(9) by blast
qed

theorem stage1_binary_search_minimal_witness:
  "step1_min_acc 99 5 < demo_oracle (uniform_query [demo_leaf] 32)
   \<and> (\<exists>r lg'. step1 demo_oracle [demo_leaf] (step1_min_acc 99 5) [] = Some (Inr (r, lg'))
         \<and> step1_bits r = 26
         \<and> linear_scan (\<lambda>N. step1_min_acc 99 5 < demo_oracle (uniform_query [demo_leaf] N))
             = Some 26)"
proof -
  have mono: "\<forall>a b. 1 \<le> a \<and> a \<le> b \<and> b \<le> 32 \<longrightarrow>
       demo_oracle (uniform_query [demo_leaf] a) \<le> demo_oracle (uniform_query [demo_leaf] b)"
    by (simp add: demo_oracle_def uniform_query_def)
  have p32: "step1_min_acc 99 5 < demo_oracle (uniform_query [demo_leaf] 32)"
    by (simp add: demo_oracle_def uniform_query_def step1_min_acc_def minimum_accuracy_def)
  have scan: "linear_scan (\<lambda>N. step1_min_acc 99 5 < demo_oracle (uniform_query [demo_leaf] N))
             = Some 26"
    by (simp add: linear_scan_def upto.simps demo_oracle_def uniform_query_def step1_min_acc_def
        minimum_accuracy_def)
  from stage1_binary_search_minimal[where orc=demo_oracle and leaves="[demo_leaf]"
      and top_accuracy=99 and accuracy_tolerance=5 and lg="[]", OF mono p32] scan mono p32
  show ?thesis by auto
qed

section \<open>Invariants of the Stage 2 loops\<close>


lemma raise_loop_result:
  assumes "raise_loop orc m a d acc w lg = Some y"
  shows "\<exists>k. fst y = map (\<lambda>b. b + int k) w \<and> m \<le> fst (snd y)
        \<and> length (snd (snd y)) = length lg + k
        \<and> (if k = 0 then fst (snd y) = acc \<and> snd (snd y) = lg
            else fst (snd y) = orc (fst y, a, d) \<and> acc < m)"
proof (rule raise_loop.raw_induct[where P = "\<lambda>orc m a d acc w lg y.
       \<exists>k. fst y = map (\<lambda>b. b + int k) w \<and> m \<le> fst (snd y)
        \<and> length (snd (snd y)) = length lg + k
        \<and> (if k = 0 then fst (snd y) = acc \<and> snd (snd y) = lg
            else fst (snd y) = orc (fst y, a, d) \<and> acc < m)", OF _ assms])
  fix f :: "accuracy_oracle \<Rightarrow> real \<Rightarrow> bitwidths \<Rightarrow> bitwidths \<Rightarrow> real \<Rightarrow> bitwidths \<Rightarrow> log
     \<Rightarrow> (bitwidths \<times> real \<times> log) option"
    and orc m a d acc w lg y
  assume ih: "\<And>orc m a d acc w lg y. f orc m a d acc w lg = Some y \<Longrightarrow>
       \<exists>k. fst y = map (\<lambda>b. b + int k) w \<and> m \<le> fst (snd y)
        \<and> length (snd (snd y)) = length lg + k
        \<and> (if k = 0 then fst (snd y) = acc \<and> snd (snd y) = lg
            else fst (snd y) = orc (fst y, a, d) \<and> acc < m)"
    and body: "(if acc < m then
        (let w1 = map (\<lambda>b. b + 1) w;
             (acc1, lg1) = quantized_test orc (w1, a, d) lg
         in f orc m a d acc1 w1 lg1)
      else Some (w, acc, lg)) = Some y"
  show "\<exists>k. fst y = map (\<lambda>b. b + int k) w \<and> m \<le> fst (snd y)
        \<and> length (snd (snd y)) = length lg + k
        \<and> (if k = 0 then fst (snd y) = acc \<and> snd (snd y) = lg
            else fst (snd y) = orc (fst y, a, d) \<and> acc < m)"
  proof (cases "acc < m")
    case False
    with body have y: "y = (w, acc, lg)" by simp
    have "fst y = map (\<lambda>b. b + int 0) w \<and> m \<le> fst (snd y)
        \<and> length (snd (snd y)) = length lg + 0
        \<and> (if (0::nat) = 0 then fst (snd y) = acc \<and> snd (snd y) = lg
            else fst (snd y) = orc (fst y, a, d) \<and> acc < m)"
      unfolding y using False by simp
    then show ?thesis by (rule exI)
  next
    case True
    define w1 where "w1 = map (\<lambda>b. b + 1) w"
    from True body have "f orc m a d (orc (w1, a, d)) w1 (lg @ [(w1, a, d)]) = Some y"
      by (simp add: quantized_test_def w1_def Let_def)
    from ih[OF this] obtain k where k: "fst y = map (\<lambda>b. b + int k) w1" "m \<le> fst (snd y)"
      "length (snd (snd y)) = length (lg @ [(w1, a, d)]) + k"
      "if k = 0 then fst (snd y) = orc (w1, a, d) \<and> snd (snd y) = lg @ [(w1, a, d)]
       else fst (snd y) = orc (fst y, a, d) \<and> orc (w1, a, d) < m"
      by blast
    have e1: "fst y = map (\<lambda>b. b + int (Suc k)) w"
      unfolding k(1) w1_def by (simp add: o_def)
    have e2: "fst (snd y) = orc (fst y, a, d)"
    proof (cases "k = 0")
      case True
      then show ?thesis using k(1,4) by simp
    next
      case False
      then show ?thesis using k(4) by simp
    qed
    have e3: "length (snd (snd y)) = length lg + Suc k" using k(3) by simp
    have "fst y = map (\<lambda>b. b + int (Suc k)) w \<and> m \<le> fst (snd y)
        \<and> length (snd (snd y)) = length lg + Suc k
        \<and> (if Suc k = 0 then fst (snd y) = acc \<and> snd (snd y) = lg
            else fst (snd y) = orc (fst y, a, d) \<and> acc < m)"
      using e1 e2 e3 k(2) True by simp
    then show ?thesis by (rule exI)
  qed
qed


lemma lower_loop_stop:
  "\<not> m < acc \<Longrightarrow> lower_loop orc m a d idx w acc prev lg = Inr (w, acc, prev, lg)"
  "m < acc \<Longrightarrow> \<not> idx < length w \<Longrightarrow> lower_loop orc m a d idx w acc prev lg = Inl IndexError"
  "m < acc \<Longrightarrow> idx < length w \<Longrightarrow> \<not> 1 < w ! idx \<Longrightarrow>
     lower_loop orc m a d idx w acc prev lg = Inr (w, acc, prev, lg)"
  by (subst lower_loop.simps, simp add: py_index_def)+

lemma lower_loop_step:
  "m < acc \<Longrightarrow> idx < length w \<Longrightarrow> 1 < w ! idx \<Longrightarrow>
     lower_loop orc m a d idx w acc prev lg =
       lower_loop orc m a d idx (w[idx := w ! idx - 1]) (orc (w[idx := w ! idx - 1], a, d))
         (Some acc) (lg @ [(w[idx := w ! idx - 1], a, d)])"
  by (subst lower_loop.simps) (simp add: py_index_def quantized_test_def Let_def)

lemma lower_loop_result:
  "lower_loop orc m a d idx w acc prev lg = Inr (w', acc', prev', lg') \<Longrightarrow>
     length w' = length w \<and> (\<forall>i. i \<noteq> idx \<longrightarrow> w' ! i = w ! i)
     \<and> (idx < length w \<longrightarrow> w' ! idx \<le> w ! idx \<and> (1 \<le> w ! idx \<longrightarrow> 1 \<le> w' ! idx))
     \<and> ((\<forall>p. prev = Some p \<longrightarrow> m < p) \<longrightarrow> (\<forall>p. prev' = Some p \<longrightarrow> m < p))
     \<and> (m < acc \<and> idx < length w \<and> 1 < w ! idx \<longrightarrow> prev' \<noteq> None)"
proof (induction orc m a d idx w acc prev lg rule: lower_loop.induct)
  case (1 orc m a d idx w acc prev lg)
  show ?case
  proof (cases "m < acc \<and> idx < length w \<and> 1 < w ! idx")
    case False
    have "lower_loop orc m a d idx w acc prev lg = Inr (w, acc, prev, lg)
        \<or> lower_loop orc m a d idx w acc prev lg = Inl IndexError"
      using False lower_loop_stop[where m=m and acc=acc and orc=orc and a=a and d=d and idx=idx
          and w=w and prev=prev and lg=lg] by blast
    then have e: "w' = w" "prev' = prev" using 1(2) by auto
    show ?thesis unfolding e using False by auto
  next
    case True
    let ?w1 = "w[idx := w ! idx - 1]"
    have t: "m < acc" "py_index w idx = Inr (w ! idx)" "1 < w ! idx" "idx < length w"
      using True by (simp_all add: py_index_def)
    have r: "lower_loop orc m a d idx ?w1 (orc (?w1, a, d)) (Some acc) (lg @ [(?w1, a, d)])
       = Inr (w', acc', prev', lg')"
      using 1(2) lower_loop_step[OF t(1) t(4) t(3)] by simp
    have q: "(orc (?w1, a, d), lg @ [(?w1, a, d)]) = quantized_test orc (?w1, a, d) lg"
      by (simp add: quantized_test_def)
    have ih: "length w' = length ?w1 \<and> (\<forall>i. i \<noteq> idx \<longrightarrow> w' ! i = ?w1 ! i)
     \<and> (idx < length ?w1 \<longrightarrow> w' ! idx \<le> ?w1 ! idx \<and> (1 \<le> ?w1 ! idx \<longrightarrow> 1 \<le> w' ! idx))
     \<and> ((\<forall>p. Some acc = Some p \<longrightarrow> m < p) \<longrightarrow> (\<forall>p. prev' = Some p \<longrightarrow> m < p))
     \<and> (m < orc (?w1, a, d) \<and> idx < length ?w1 \<and> 1 < ?w1 ! idx \<longrightarrow> prev' \<noteq> None)"
      by (rule 1(1)[OF t(1) t(2) t(3) refl refl refl q r])
    have a1: "length w' = length w" using conjunct1[OF ih] by simp
    have a2: "\<forall>i. i \<noteq> idx \<longrightarrow> w' ! i = w ! i" using conjunct1[OF conjunct2[OF ih]] by simp
    have i3: "idx < length ?w1 \<longrightarrow> w' ! idx \<le> ?w1 ! idx \<and> (1 \<le> ?w1 ! idx \<longrightarrow> 1 \<le> w' ! idx)"
      using conjunct1[OF conjunct2[OF conjunct2[OF ih]]] .
    have w1: "?w1 ! idx = w ! idx - 1" "idx < length ?w1" using t(4) by simp_all
    have a3: "w' ! idx \<le> w ! idx" "1 \<le> w' ! idx" using i3 w1 t(3) by linarith+
    have a4: "\<forall>p. prev' = Some p \<longrightarrow> m < p"
      using conjunct1[OF conjunct2[OF conjunct2[OF conjunct2[OF ih]]]] t(1) by simp
    have i5: "m < orc (?w1, a, d) \<and> idx < length ?w1 \<and> 1 < ?w1 ! idx \<longrightarrow> prev' \<noteq> None"
      using conjunct2[OF conjunct2[OF conjunct2[OF conjunct2[OF ih]]]] .
    have a5: "prev' \<noteq> None"
    proof (cases "m < orc (?w1, a, d) \<and> 1 < ?w1 ! idx")
      case True
      then show ?thesis using i5 w1(2) by blast
    next
      case False
      have "lower_loop orc m a d idx ?w1 (orc (?w1, a, d)) (Some acc) (lg @ [(?w1, a, d)])
         = Inr (?w1, orc (?w1, a, d), Some acc, lg @ [(?w1, a, d)])"
      proof (cases "m < orc (?w1, a, d)")
        case True
        then have "\<not> 1 < ?w1 ! idx" using False by simp
        then show ?thesis using True t(4) by (intro lower_loop_stop(3)) simp_all
      next
        case False
        then show ?thesis by (rule lower_loop_stop(1))
      qed
      then have "prev' = Some acc" using r by simp
      then show ?thesis by simp
    qed
    show ?thesis using a1 a2 a3 a4 a5 by (intro conjI impI)
  qed
qed

lemma lower_phase_result:
  assumes "lower_phase orc m nums bb a d tuples w acc prev lg = Inr (bB, w2, acc2, lg2)"
  shows "length w2 = length w
     \<and> ((\<forall>i<length w. 1 \<le> w ! i) \<longrightarrow> (\<forall>i<length w2. 1 \<le> w2 ! i))
     \<and> ((\<forall>p. prev = Some p \<longrightarrow> m < p) \<and> tuples \<noteq> [] \<longrightarrow> m < acc2)
     \<and> (bB \<and> tuples \<noteq> [] \<longrightarrow> bb < real_of_int (\<Sum>i\<leftarrow>[0..<length w2]. w2 ! i * nums ! i))
     \<and> (\<not> bB \<longrightarrow> real_of_int (\<Sum>i\<leftarrow>[0..<length w2]. w2 ! i * nums ! i) \<le> bb)
     \<and> (tuples = [] \<longrightarrow> bB \<and> w2 = w \<and> acc2 = acc \<and> lg2 = lg)"
  using assms
proof (induction tuples arbitrary: w acc prev lg)
  case Nil
  then show ?case by simp
next
  case (Cons l ls)
  define idx where "idx = snd (snd l)"
  from Cons.prems obtain w1 acc1 prev1 lg1 where
    ll: "lower_loop orc m a d idx w acc prev lg = Inr (w1, acc1, prev1, lg1)"
    unfolding idx_def by (cases "lower_loop orc m a d (snd (snd l)) w acc prev lg") auto
  from Cons.prems ll have ir: "idx < length w1"
    unfolding idx_def by (auto simp: py_index_def split: if_splits)
  from Cons.prems ll ir obtain p where p: "prev1 = Some p"
    unfolding idx_def by (cases prev1) (auto simp: py_index_def)
  define w2' where "w2' = w1[idx := w1 ! idx + 1]"
  from Cons.prems ll ir p have lens: "length w2' \<le> length nums"
    unfolding idx_def w2'_def by (auto simp: py_index_def py_sum_products_def Let_def split: if_splits)
  define cm where "cm = (\<Sum>i\<leftarrow>[0..<length w2']. w2' ! i * nums ! i)"
  have rest: "(if real_of_int cm \<le> bb then Inr (False, w2', p, lg1)
         else lower_phase orc m nums bb a d ls w2' p prev1 lg1) = Inr (bB, w2, acc2, lg2)"
    using Cons.prems ll ir p lens unfolding idx_def w2'_def cm_def
    by (auto simp: py_index_def py_sum_products_def Let_def split: if_splits)
  note llr = lower_loop_result[OF ll]
  have l1: "length w1 = length w" using conjunct1[OF llr] .
  have l2: "\<forall>i. i \<noteq> idx \<longrightarrow> w1 ! i = w ! i" using conjunct1[OF conjunct2[OF llr]] .
  have l3: "idx < length w \<longrightarrow> w1 ! idx \<le> w ! idx \<and> (1 \<le> w ! idx \<longrightarrow> 1 \<le> w1 ! idx)"
    using conjunct1[OF conjunct2[OF conjunct2[OF llr]]] .
  have l4: "(\<forall>p. prev = Some p \<longrightarrow> m < p) \<longrightarrow> (\<forall>p. prev1 = Some p \<longrightarrow> m < p)"
    using conjunct1[OF conjunct2[OF conjunct2[OF conjunct2[OF llr]]]] .
  have len2: "length w2' = length w" by (simp add: w2'_def l1)
  have pos2: "(\<forall>i<length w. 1 \<le> w ! i) \<longrightarrow> (\<forall>i<length w2'. 1 \<le> w2' ! i)"
  proof (intro impI allI)
    fix i assume a: "\<forall>i<length w. 1 \<le> w ! i" and i: "i < length w2'"
    show "1 \<le> w2' ! i"
    proof (cases "i = idx")
      case True
      have "1 \<le> w1 ! idx" using l3 ir l1 a by simp
      then show ?thesis using True ir by (simp add: w2'_def)
    next
      case False
      then have "w2' ! i = w ! i" using l2 by (simp add: w2'_def)
      then show ?thesis using a i len2 by simp
    qed
  qed
  have pm: "(\<forall>q. prev = Some q \<longrightarrow> m < q) \<longrightarrow> m < p" using l4 p by simp
  show ?case
  proof (cases "real_of_int cm \<le> bb")
    case True
    with rest have e: "bB = False" "w2 = w2'" "acc2 = p" "lg2 = lg1" by simp_all
    show ?thesis unfolding e using len2 pos2 pm True cm_def by simp
  next
    case False
    with rest have r: "lower_phase orc m nums bb a d ls w2' p prev1 lg1 = Inr (bB, w2, acc2, lg2)"
      by simp
    note ih = Cons.IH[OF r]
    have i1: "length w2 = length w2'" using conjunct1[OF ih] .
    have i2: "(\<forall>i<length w2'. 1 \<le> w2' ! i) \<longrightarrow> (\<forall>i<length w2. 1 \<le> w2 ! i)"
      using conjunct1[OF conjunct2[OF ih]] .
    have i3: "(\<forall>q. prev1 = Some q \<longrightarrow> m < q) \<and> ls \<noteq> [] \<longrightarrow> m < acc2"
      using conjunct1[OF conjunct2[OF conjunct2[OF ih]]] .
    have i4: "bB \<and> ls \<noteq> [] \<longrightarrow> bb < real_of_int (\<Sum>i\<leftarrow>[0..<length w2]. w2 ! i * nums ! i)"
      using conjunct1[OF conjunct2[OF conjunct2[OF conjunct2[OF ih]]]] .
    have i5: "\<not> bB \<longrightarrow> real_of_int (\<Sum>i\<leftarrow>[0..<length w2]. w2 ! i * nums ! i) \<le> bb"
      using conjunct1[OF conjunct2[OF conjunct2[OF conjunct2[OF conjunct2[OF ih]]]]] .
    have i6: "ls = [] \<longrightarrow> bB \<and> w2 = w2' \<and> acc2 = p \<and> lg2 = lg1"
      using conjunct2[OF conjunct2[OF conjunct2[OF conjunct2[OF conjunct2[OF ih]]]]] .
    have c1: "length w2 = length w" using i1 len2 by simp
    have c2: "(\<forall>i<length w. 1 \<le> w ! i) \<longrightarrow> (\<forall>i<length w2. 1 \<le> w2 ! i)"
      using pos2 i2 by blast
    have c3: "(\<forall>q. prev = Some q \<longrightarrow> m < q) \<longrightarrow> m < acc2"
    proof
      assume h: "\<forall>q. prev = Some q \<longrightarrow> m < q"
      then have mp: "m < p" using pm by simp
      show "m < acc2"
      proof (cases "ls = []")
        case True
        then show ?thesis using i6 mp by simp
      next
        case False
        then show ?thesis using i3 p mp by simp
      qed
    qed
    have c4: "bB \<longrightarrow> bb < real_of_int (\<Sum>i\<leftarrow>[0..<length w2]. w2 ! i * nums ! i)"
    proof (cases "ls = []")
      case True
      then have "w2 = w2'" using i6 by simp
      then show ?thesis using False cm_def by simp
    next
      case False
      then show ?thesis using i4 by simp
    qed
    show ?thesis using c1 c2 c3 c4 i5 by simp
  qed
qed

lemma sum_list_nums:
  "sum_list (number_of_weights_inlayers leaves) = int (sum_list (map numel leaves))"
  by (induction leaves) (simp_all add: number_of_weights_inlayers_def)

lemma branchB_return_shape:
  "branchB_return orc tot nums a d mw macc w2 acc2 lg = Inr (out, lg') \<Longrightarrow>
     \<exists>c1 c2. out = Two_models c1 c2"
  by (auto simp: branchB_return_def quantized_test_def split: sum.splits)

lemma branchA_shape:
  "branchA orc m leaves groups tot nums w a d acc lg = Some (Inr (out, lg')) \<Longrightarrow>
     \<exists>c. out = Satisfied c"
  by (auto simp: branchA_def split: option.splits sum.splits prod.splits)

lemma step2_no_error:
  "\<not> memory_budget_bits budget < real_of_int (sum_list nums) \<Longrightarrow>
     step2 orc m nums budget tuples w1 a1 d1 lg \<noteq> Some (Inr (Step2_error mb, lg'))"
  by (auto simp: step2_def Let_def quantized_test_def
      split: option.splits sum.splits prod.splits if_splits)

lemma step2_error_value:
  "memory_budget_bits budget < real_of_int (sum_list nums) \<Longrightarrow>
     step2 orc m nums budget tuples w1 a1 d1 lg =
       Some (Inr (Step2_error (real_of_int (sum_list nums) / 8 / 2 ^ 20), lg))"
  by (simp add: step2_def Let_def)


lemma nums_nonneg: "\<forall>i<length leaves. 0 \<le> number_of_weights_inlayers leaves ! i"
  by (simp add: number_of_weights_inlayers_def)

lemma length_nums [simp]: "length (number_of_weights_inlayers leaves) = length leaves"
  by (simp add: number_of_weights_inlayers_def)

lemma sum_products_ge:
  assumes "length w = length nums" "\<forall>i<length w. 1 \<le> w ! i" "\<forall>i<length nums. (0::int) \<le> nums ! i"
  shows "sum_list nums \<le> (\<Sum>i\<leftarrow>[0..<length nums]. nums ! i * w ! i)"
proof -
  have "sum_list nums = (\<Sum>i\<leftarrow>[0..<length nums]. nums ! i)" by (simp add: map_nth)
  also have "\<dots> \<le> (\<Sum>i\<leftarrow>[0..<length nums]. nums ! i * w ! i)"
  proof (rule sum_list_mono)
    fix i assume "i \<in> set [0..<length nums]"
    then have i: "i < length nums" by simp
    then have "0 \<le> nums ! i" "1 \<le> w ! i" using assms by simp_all
    then show "nums ! i \<le> nums ! i * w ! i" by (simp add: mult_le_cancel_left1)
  qed
  finally show ?thesis .
qed

lemma sum_products_replicate:
  "(\<Sum>i\<leftarrow>[0..<length nums]. nums ! i * replicate (length nums) b ! i) = sum_list nums * (b::int)"
proof -
  have "(\<Sum>i\<leftarrow>[0..<length nums]. nums ! i * replicate (length nums) b ! i)
      = (\<Sum>i\<leftarrow>[0..<length nums]. nums ! i * b)"
    by (rule arg_cong[where f=sum_list], rule map_cong) simp_all
  also have "\<dots> = (\<Sum>i\<leftarrow>[0..<length nums]. nums ! i) * b" by (simp add: sum_list_mult_const)
  also have "\<dots> = sum_list nums * b" by (simp add: map_nth)
  finally show ?thesis .
qed

lemma wmem_reduction_of_ok:
  assumes "length w = length nums" "(\<Sum>i\<leftarrow>[0..<length nums]. nums ! i * w ! i) \<noteq> 0"
  shows "wmem_reduction_of tot nums w =
     Inr (real_of_int tot / real_of_int (\<Sum>i\<leftarrow>[0..<length nums]. nums ! i * w ! i))"
  using assms by (simp add: wmem_reduction_of_def py_sum_products_def py_truediv_def)

lemma qcapsnets_after_step1:
  assumes "quantization_function_activations md" "quantization_function_weights md"
    and "step1 orc (leaf_children md) (step1_min_acc top_accuracy accuracy_tolerance) []
           = Some (Inr (r1, lg1))"
  shows "qcapsnets orc md top_accuracy accuracy_tolerance memory_budget =
     (case step2 orc (minimum_accuracy top_accuracy accuracy_tolerance)
             (number_of_weights_inlayers (leaf_children md)) memory_budget
             (sqnr_tuples (weights_scale_factors_original md))
             (replicate (length (leaf_children md)) (step1_bits r1))
             (replicate (length (leaf_children md)) (step1_bits r1))
             (replicate (length (filter routing (leaf_children md))) (step1_bits r1)) lg1 of
        None \<Rightarrow> None
      | Some (Inl e) \<Rightarrow> Some (Inl e)
      | Some (Inr (Step2_error mb, lg2)) \<Rightarrow> Some (Inr (Budget_error mb, lg2))
      | Some (Inr (Step2_branchB mw macc w2 acc2, lg2)) \<Rightarrow>
          Some (branchB_return orc (int (tot_numer_of_weights md) * 32)
                  (number_of_weights_inlayers (leaf_children md))
                  (replicate (length (leaf_children md)) (step1_bits r1))
                  (replicate (length (filter routing (leaf_children md))) (step1_bits r1))
                  mw macc w2 acc2 lg2)
      | Some (Inr (Step2_satisfied w2 acc2, lg2)) \<Rightarrow>
          branchA orc (minimum_accuracy top_accuracy accuracy_tolerance) (leaf_children md)
            (act_sqnr_grouped_index (act_info_sqnr md)) (int (tot_numer_of_weights md) * 32)
            (number_of_weights_inlayers (leaf_children md)) w2
            (replicate (length (leaf_children md)) (step1_bits r1))
            (replicate (length (filter routing (leaf_children md))) (step1_bits r1)) acc2 lg2)"
  using assms by (simp add: qcapsnets_def Let_def)

lemma step2_feasible:
  assumes "\<not> memory_budget_bits budget < real_of_int (sum_list nums)" "sum_list nums \<noteq> 0"
  shows "step2 orc m nums budget tuples w1 a1 d1 lg =
     (let w = replicate (length w1) \<lfloor>memory_budget_bits budget / real_of_int (sum_list nums)\<rfloor>;
          acc = orc (w, a1, d1); lg1 = lg @ [(w, a1, d1)]
      in if m \<le> acc then Some (Inr (Step2_satisfied w acc, lg1))
         else (case raise_loop orc m a1 d1 acc w lg1 of
                 None \<Rightarrow> None
               | Some (wr, accr, lg2) \<Rightarrow>
                   (case lower_phase orc m nums (memory_budget_bits budget) a1 d1 tuples wr accr
                           None lg2 of
                      Inl e \<Rightarrow> Some (Inl e)
                    | Inr (branchB, w2, acc2, lg3) \<Rightarrow>
                        if branchB then Some (Inr (Step2_branchB w acc w2 acc2, lg3))
                        else Some (Inr (Step2_satisfied w2 acc2, lg3)))))"
  using assms by (simp add: step2_def Let_def quantized_test_def)

section \<open>Evaluating the example\<close>

lemmas two_layer_eval = two_layer_oracle_def two_layer_model_def uniform_query_def
  step1_quantization_test_def quantized_test_def py_from_end_def py_index_def py_int_def
  step1_def Let_def routing_def minimum_accuracy_def step1_min_acc_def
  qcapsnets_def step2_def branchB_return_def branchA_def step3a_def step4a_def
  wmem_reduction_of_def py_sum_products_def py_truediv_def number_of_weights_inlayers_def
  memory_budget_bits_def sqnr_tuples_def act_sqnr_grouped_index_def act_sqnr_sorted_def
  enumerate_eq_zip update_dr_bits_def
  step1_loop.simps raise_loop.simps lower_loop.simps step3a_loop.simps step4a_loop.simps

lemma two_layer_step1_60:
  "step1 two_layer_oracle (leaf_children two_layer_model) (step1_min_acc 60 5) [] =
     Some (Inr (\<lparr>step1_bits = 1, step1_acc = 123 / 2,
                  step1_bit_search = [32, 16, 8, 4, 2, 1],
                  step1_acc_list = [108, 84, 72, 66, 63, 123 / 2],
                  step1_bit_search_sat = [True, True, True, True, True, True]\<rparr>,
                [([32, 32], [32, 32], [32]), ([16, 16], [16, 16], [16]),
                 ([8, 8], [8, 8], [8]), ([4, 4], [4, 4], [4]),
                 ([2, 2], [2, 2], [2]), ([1, 1], [1, 1], [1])]))"
  by (simp add: two_layer_eval)


lemma two_layer_step1_80:
  "step1 two_layer_oracle (leaf_children two_layer_model) (step1_min_acc 80 20) [] =
     Some (Inr (\<lparr>step1_bits = 13, step1_acc = 159 / 2,
                  step1_bit_search = [32, 16, 8, 12, 14, 13],
                  step1_acc_list = [108, 84, 72, 78, 81, 159 / 2],
                  step1_bit_search_sat = [True, True, False, False, True, True]\<rparr>,
                [([32, 32], [32, 32], [32]), ([16, 16], [16, 16], [16]),
                 ([8, 8], [8, 8], [8]), ([12, 12], [12, 12], [12]),
                 ([14, 14], [14, 14], [14]), ([13, 13], [13, 13], [13])]))"
  by (simp add: two_layer_eval)

lemma two_layer_raise_80:
  "raise_loop two_layer_oracle (minimum_accuracy 80 20) [13, 13] [13]
       (two_layer_oracle ([1, 1], [13, 13], [13])) [1, 1]
       ([([32, 32], [32, 32], [32]), ([16, 16], [16, 16], [16]),
         ([8, 8], [8, 8], [8]), ([12, 12], [12, 12], [12]),
         ([14, 14], [14, 14], [14]), ([13, 13], [13, 13], [13])] @ [([1, 1], [13, 13], [13])])
     = Some ([3, 3], 129 / 2,
         [([32, 32], [32, 32], [32]), ([16, 16], [16, 16], [16]),
          ([8, 8], [8, 8], [8]), ([12, 12], [12, 12], [12]),
          ([14, 14], [14, 14], [14]), ([13, 13], [13, 13], [13]),
          ([1, 1], [13, 13], [13]), ([2, 2], [13, 13], [13]), ([3, 3], [13, 13], [13])])"
  by (simp add: two_layer_eval)

lemma two_layer_lower_80:
  "lower_phase two_layer_oracle (minimum_accuracy 80 20)
       (number_of_weights_inlayers (leaf_children two_layer_model)) ((25 / 1048576) * 8 * 2 ^ 20)
       [13, 13] [13] (sqnr_tuples (weights_scale_factors_original two_layer_model))
       [3, 3] (129 / 2) None
       [([32, 32], [32, 32], [32]), ([16, 16], [16, 16], [16]),
        ([8, 8], [8, 8], [8]), ([12, 12], [12, 12], [12]),
        ([14, 14], [14, 14], [14]), ([13, 13], [13, 13], [13]),
        ([1, 1], [13, 13], [13]), ([2, 2], [13, 13], [13]), ([3, 3], [13, 13], [13])]
     = Inr (True, [2, 3], 257 / 4,
        [([32, 32], [32, 32], [32]), ([16, 16], [16, 16], [16]),
         ([8, 8], [8, 8], [8]), ([12, 12], [12, 12], [12]),
         ([14, 14], [14, 14], [14]), ([13, 13], [13, 13], [13]),
         ([1, 1], [13, 13], [13]), ([2, 2], [13, 13], [13]), ([3, 3], [13, 13], [13]),
         ([2, 3], [13, 13], [13]), ([1, 3], [13, 13], [13]), ([2, 2], [13, 13], [13])])"
  by (simp add: two_layer_eval)

section \<open>Stage 2 entry: the infeasible budget\<close>

text \<open>
  Claim C5. When both quantization functions of the scheme exist, Stage 1 always returns
  (with a log \<open>lg1\<close> of its evaluations), and then: if the budget in bits,
  \<open>memory_budget * 8 * 2^20\<close>, is strictly below the number of weights of the leaf layers,
  the search returns the error string (naming that number of weights in megabytes) with
  the log of Stage 1 unchanged, so without any further evaluation; otherwise it never
  returns the error string.
\<close>

theorem budget_error_iff_infeasible:
  assumes "quantization_function_activations md" and "quantization_function_weights md"
  shows "\<exists>r lg1.
      step1 orc (leaf_children md) (step1_min_acc top_accuracy accuracy_tolerance) []
        = Some (Inr (r, lg1))
    \<and> (if memory_budget * 8 * 2 ^ 20 < real (sum_list (map numel (leaf_children md)))
       then qcapsnets orc md top_accuracy accuracy_tolerance memory_budget
              = Some (Inr (Budget_error
                    (real (sum_list (map numel (leaf_children md))) / 8 / 2 ^ 20), lg1))
       else \<forall>mb lg. qcapsnets orc md top_accuracy accuracy_tolerance memory_budget
              \<noteq> Some (Inr (Budget_error mb, lg)))"
proof -
  obtain r lg1 where r: "step1 orc (leaf_children md)
      (step1_min_acc top_accuracy accuracy_tolerance) [] = Some (Inr (r, lg1))"
    using step1_total[of orc "leaf_children md" "step1_min_acc top_accuracy accuracy_tolerance" "[]"]
    by blast
  let ?nums = "number_of_weights_inlayers (leaf_children md)"
  have tot: "real_of_int (sum_list ?nums) = real (sum_list (map numel (leaf_children md)))"
    by (simp add: sum_list_nums)
  show ?thesis
  proof (cases "memory_budget * 8 * 2 ^ 20 < real (sum_list (map numel (leaf_children md)))")
    case True
    then have "memory_budget_bits memory_budget < real_of_int (sum_list ?nums)"
      by (simp add: tot memory_budget_bits_def)
    from step2_error_value[OF this]
    have "qcapsnets orc md top_accuracy accuracy_tolerance memory_budget
              = Some (Inr (Budget_error (real_of_int (sum_list ?nums) / 8 / 2 ^ 20), lg1))"
      using assms r by (simp add: qcapsnets_def Let_def)
    then show ?thesis using r True unfolding tot by simp
  next
    case False
    then have nf: "\<not> memory_budget_bits memory_budget < real_of_int (sum_list ?nums)"
      by (simp add: tot memory_budget_bits_def)
    have "qcapsnets orc md top_accuracy accuracy_tolerance memory_budget
              \<noteq> Some (Inr (Budget_error mb, lg))" for mb lg
      using assms r step2_no_error[OF nf]
      by (auto simp: qcapsnets_def Let_def split: option.splits sum.splits prod.splits
          step2_result.splits dest: branchB_return_shape branchA_shape)
    then show ?thesis using r False by simp
  qed
qed

theorem budget_error_iff_infeasible_witness:
  "qcapsnets two_layer_oracle two_layer_model 60 5 0 =
     Some (Inr (Budget_error (real (sum_list (map numel (leaf_children two_layer_model)))
                                / 8 / 2 ^ 20),
                [([32, 32], [32, 32], [32]), ([16, 16], [16, 16], [16]),
                 ([8, 8], [8, 8], [8]), ([4, 4], [4, 4], [4]),
                 ([2, 2], [2, 2], [2]), ([1, 1], [1, 1], [1])]))"
proof -
  have h1: "quantization_function_activations two_layer_model"
    and h2: "quantization_function_weights two_layer_model"
    by (simp_all add: two_layer_model_def)
  have inf: "(0::real) * 8 * 2 ^ 20 < real (sum_list (map numel (leaf_children two_layer_model)))"
    by (simp add: two_layer_model_def)
  from budget_error_iff_infeasible[OF h1 h2, of two_layer_oracle 60 5 0] inf two_layer_step1_60
  show ?thesis by auto
qed

section \<open>Stage 2: the uniform candidate\<close>

text \<open>
  Claim C6. Let the budget be feasible and the leaf layers have at least one weight. The
  uniform Stage 2 candidate gives every layer \<open>b2 = floor(memoryBudgetBits / sum of the
  weight counts)\<close> bits and is evaluated with the activation and dynamic-routing bits
  of Stage 1. If its accuracy is at least \<open>minimum_accuracy\<close>, Stage 2 ends after this one
  evaluation, and the search continues with Stage 3A on exactly this configuration
  (\<open>branchA\<close> is Stage 3A, Stage 4A and the return); otherwise the raise phase starts
  from this candidate. A budget equal to the sum of the weight counts gives \<open>b2 = 1\<close>.
\<close>

theorem uniform_candidate_accepted:
  assumes "quantization_function_activations md" and "quantization_function_weights md"
    and s1: "step1 orc (leaf_children md) (step1_min_acc top_accuracy accuracy_tolerance) []
               = Some (Inr (r1, lg1))"
    and feas: "\<not> memory_budget * 8 * 2 ^ 20 < real (sum_list (map numel (leaf_children md)))"
    and pos: "0 < sum_list (map numel (leaf_children md))"
    and b2: "b2 = \<lfloor>memory_budget * 8 * 2 ^ 20 / real (sum_list (map numel (leaf_children md)))\<rfloor>"
    and w: "w = replicate (length (leaf_children md)) b2"
    and a: "a = replicate (length (leaf_children md)) (step1_bits r1)"
    and d: "d = replicate (length (filter routing (leaf_children md))) (step1_bits r1)"
  shows "(minimum_accuracy top_accuracy accuracy_tolerance \<le> orc (w, a, d) \<longrightarrow>
           step2 orc (minimum_accuracy top_accuracy accuracy_tolerance)
               (number_of_weights_inlayers (leaf_children md)) memory_budget
               (sqnr_tuples (weights_scale_factors_original md)) a a d lg1
             = Some (Inr (Step2_satisfied w (orc (w, a, d)), lg1 @ [(w, a, d)]))
         \<and> qcapsnets orc md top_accuracy accuracy_tolerance memory_budget
             = branchA orc (minimum_accuracy top_accuracy accuracy_tolerance) (leaf_children md)
                 (act_sqnr_grouped_index (act_info_sqnr md)) (int (tot_numer_of_weights md) * 32)
                 (number_of_weights_inlayers (leaf_children md)) w a d (orc (w, a, d))
                 (lg1 @ [(w, a, d)]))
       \<and> (orc (w, a, d) < minimum_accuracy top_accuracy accuracy_tolerance \<longrightarrow>
           step2 orc (minimum_accuracy top_accuracy accuracy_tolerance)
               (number_of_weights_inlayers (leaf_children md)) memory_budget
               (sqnr_tuples (weights_scale_factors_original md)) a a d lg1
             = (case raise_loop orc (minimum_accuracy top_accuracy accuracy_tolerance) a d
                       (orc (w, a, d)) w (lg1 @ [(w, a, d)]) of
                  None \<Rightarrow> None
                | Some (wr, accr, lg2) \<Rightarrow>
                   (case lower_phase orc (minimum_accuracy top_accuracy accuracy_tolerance)
                           (number_of_weights_inlayers (leaf_children md))
                           (memory_budget * 8 * 2 ^ 20) a d
                           (sqnr_tuples (weights_scale_factors_original md)) wr accr None lg2 of
                      Inl e \<Rightarrow> Some (Inl e)
                    | Inr (branchB, w2, acc2, lg3) \<Rightarrow>
                        if branchB then Some (Inr (Step2_branchB w (orc (w, a, d)) w2 acc2, lg3))
                        else Some (Inr (Step2_satisfied w2 acc2, lg3)))))
       \<and> (memory_budget * 8 * 2 ^ 20 = real (sum_list (map numel (leaf_children md)))
            \<longrightarrow> b2 = 1)"
proof -
  let ?nums = "number_of_weights_inlayers (leaf_children md)"
  let ?m = "minimum_accuracy top_accuracy accuracy_tolerance"
  have tot: "real_of_int (sum_list ?nums) = real (sum_list (map numel (leaf_children md)))"
    by (simp add: sum_list_nums)
  have nf: "\<not> memory_budget_bits memory_budget < real_of_int (sum_list ?nums)"
    using feas by (simp add: tot memory_budget_bits_def)
  have nz: "sum_list ?nums \<noteq> 0" unfolding sum_list_nums using pos by linarith
  have wdef: "w = replicate (length a) \<lfloor>memory_budget_bits memory_budget / real_of_int (sum_list ?nums)\<rfloor>"
    unfolding w b2 a tot memory_budget_bits_def by simp
  note s2 = step2_feasible[OF nf nz, of orc ?m "sqnr_tuples (weights_scale_factors_original md)"
      a a d lg1, folded wdef]
  have p1: "?m \<le> orc (w, a, d) \<Longrightarrow>
      step2 orc ?m ?nums memory_budget (sqnr_tuples (weights_scale_factors_original md)) a a d lg1
        = Some (Inr (Step2_satisfied w (orc (w, a, d)), lg1 @ [(w, a, d)]))"
    unfolding s2 by (simp add: Let_def)
  have p2: "?m \<le> orc (w, a, d) \<Longrightarrow>
      qcapsnets orc md top_accuracy accuracy_tolerance memory_budget
        = branchA orc ?m (leaf_children md) (act_sqnr_grouped_index (act_info_sqnr md))
            (int (tot_numer_of_weights md) * 32) ?nums w a d (orc (w, a, d)) (lg1 @ [(w, a, d)])"
    unfolding qcapsnets_after_step1[OF assms(1,2) s1] a[symmetric] d[symmetric]
    by (simp add: p1)
  have p3: "orc (w, a, d) < ?m \<Longrightarrow>
      step2 orc ?m ?nums memory_budget (sqnr_tuples (weights_scale_factors_original md)) a a d lg1
        = (case raise_loop orc ?m a d (orc (w, a, d)) w (lg1 @ [(w, a, d)]) of
             None \<Rightarrow> None
           | Some (wr, accr, lg2) \<Rightarrow>
              (case lower_phase orc ?m ?nums (memory_budget * 8 * 2 ^ 20) a d
                      (sqnr_tuples (weights_scale_factors_original md)) wr accr None lg2 of
                 Inl e \<Rightarrow> Some (Inl e)
               | Inr (branchB, w2, acc2, lg3) \<Rightarrow>
                   if branchB then Some (Inr (Step2_branchB w (orc (w, a, d)) w2 acc2, lg3))
                   else Some (Inr (Step2_satisfied w2 acc2, lg3))))"
    unfolding s2 memory_budget_bits_def by (simp add: Let_def)
  have p4: "b2 = 1"
    if e: "memory_budget * 8 * 2 ^ 20 = real (sum_list (map numel (leaf_children md)))"
  proof -
    define T where "T = real (sum_list (map numel (leaf_children md)))"
    have "0 < T" unfolding T_def using pos by (rule iffD2[OF of_nat_0_less_iff])
    then have "T / T = 1" by simp
    then show "b2 = 1" unfolding b2 e T_def[symmetric] by simp
  qed
  show ?thesis using p1 p2 p3 p4 by blast
qed

theorem uniform_candidate_accepted_witness:
  "qcapsnets two_layer_oracle two_layer_model 60 5 (25 / 1048576) =
     branchA two_layer_oracle (minimum_accuracy 60 5) (leaf_children two_layer_model)
       (act_sqnr_grouped_index (act_info_sqnr two_layer_model))
       (int (tot_numer_of_weights two_layer_model) * 32)
       (number_of_weights_inlayers (leaf_children two_layer_model)) [1, 1] [1, 1] [1]
       (two_layer_oracle ([1, 1], [1, 1], [1]))
       ([([32, 32], [32, 32], [32]), ([16, 16], [16, 16], [16]),
         ([8, 8], [8, 8], [8]), ([4, 4], [4, 4], [4]),
         ([2, 2], [2, 2], [2]), ([1, 1], [1, 1], [1])] @ [([1, 1], [1, 1], [1])])"
proof -
  have h1: "quantization_function_activations two_layer_model"
    and h2: "quantization_function_weights two_layer_model"
    by (simp_all add: two_layer_model_def)
  have feas: "\<not> (25 / 1048576) * 8 * 2 ^ 20
      < real (sum_list (map numel (leaf_children two_layer_model)))"
    by (simp add: two_layer_model_def)
  have pos: "0 < sum_list (map numel (leaf_children two_layer_model))"
    by (simp add: two_layer_model_def)
  have b2: "(1::int) = \<lfloor>(25 / 1048576) * 8 * 2 ^ 20
      / real (sum_list (map numel (leaf_children two_layer_model)))\<rfloor>"
    by (simp add: two_layer_model_def)
  have w: "[1, 1] = replicate (length (leaf_children two_layer_model)) (1::int)"
    by (simp add: two_layer_model_def)
  have a: "[1, 1] = replicate (length (leaf_children two_layer_model))
      (step1_bits \<lparr>step1_bits = 1, step1_acc = 123 / 2,
                  step1_bit_search = [32, 16, 8, 4, 2, 1],
                  step1_acc_list = [108, 84, 72, 66, 63, 123 / 2],
                  step1_bit_search_sat = [True, True, True, True, True, True]\<rparr>)"
    by (simp add: two_layer_model_def)
  have d: "[1] = replicate (length (filter routing (leaf_children two_layer_model)))
      (step1_bits \<lparr>step1_bits = 1, step1_acc = 123 / 2,
                  step1_bit_search = [32, 16, 8, 4, 2, 1],
                  step1_acc_list = [108, 84, 72, 66, 63, 123 / 2],
                  step1_bit_search_sat = [True, True, True, True, True, True]\<rparr>)"
    by (simp add: two_layer_model_def routing_def)
  have acc: "minimum_accuracy 60 5 \<le> two_layer_oracle ([1, 1], [1, 1], [1])"
    by (simp add: minimum_accuracy_def two_layer_oracle_def)
  from uniform_candidate_accepted[OF h1 h2 two_layer_step1_60 feas pos b2 w a d] acc
  show ?thesis by blast
qed

section \<open>Stage 2: the raise phase ending exactly on the minimum\<close>

lemma step2_raise_lower:
  assumes nf: "\<not> memory_budget_bits budget < real_of_int (sum_list nums)"
    and nz: "sum_list nums \<noteq> 0"
    and w: "w = replicate (length w1) \<lfloor>memory_budget_bits budget / real_of_int (sum_list nums)\<rfloor>"
    and below: "orc (w, a1, d1) < m"
    and raise: "raise_loop orc m a1 d1 (orc (w, a1, d1)) w (lg @ [(w, a1, d1)]) = Some (wr, accr, lg2)"
  shows "step2 orc m nums budget tuples w1 a1 d1 lg =
     (case lower_phase orc m nums (memory_budget_bits budget) a1 d1 tuples wr accr None lg2 of
        Inl e \<Rightarrow> Some (Inl e)
      | Inr (branchB, w2, acc2, lg3) \<Rightarrow>
          if branchB then Some (Inr (Step2_branchB w (orc (w, a1, d1)) w2 acc2, lg3))
          else Some (Inr (Step2_satisfied w2 acc2, lg3)))"
  unfolding step2_feasible[OF nf nz] w[symmetric] using below raise by (simp add: Let_def)

lemma lower_phase_unbound:
  assumes "idx < length w"
  shows "lower_phase orc m nums bb a d ((key, s, idx) # ls) w m None lg = Inl UnboundLocalError"
proof -
  have "lower_loop orc m a d idx w m None lg = Inr (w, m, None, lg)"
    by (rule lower_loop_stop(1)) simp
  then show ?thesis using assms by (simp add: py_index_def)
qed

lemma feasible_facts:
  assumes feas: "\<not> memory_budget * 8 * 2 ^ 20 < real (sum_list (map numel leaves))"
    and pos: "0 < sum_list (map numel leaves)"
  shows "\<not> memory_budget_bits memory_budget < real_of_int (sum_list (number_of_weights_inlayers leaves))"
    and "sum_list (number_of_weights_inlayers leaves) \<noteq> 0"
    and "0 < sum_list (number_of_weights_inlayers leaves)"
    and "1 \<le> \<lfloor>memory_budget * 8 * 2 ^ 20 / real (sum_list (map numel leaves))\<rfloor>"
    and "\<lfloor>memory_budget_bits memory_budget
            / real_of_int (sum_list (number_of_weights_inlayers leaves))\<rfloor>
         = \<lfloor>memory_budget * 8 * 2 ^ 20 / real (sum_list (map numel leaves))\<rfloor>"
proof -
  define T where "T = real (sum_list (map numel leaves))"
  have tot: "real_of_int (sum_list (number_of_weights_inlayers leaves)) = T"
    by (simp add: sum_list_nums T_def)
  have Tpos: "0 < T" unfolding T_def using pos by (rule iffD2[OF of_nat_0_less_iff])
  show "\<not> memory_budget_bits memory_budget < real_of_int (sum_list (number_of_weights_inlayers leaves))"
    unfolding tot using feas by (simp add: memory_budget_bits_def T_def)
  show "sum_list (number_of_weights_inlayers leaves) \<noteq> 0"
    unfolding sum_list_nums using pos by linarith
  show "0 < sum_list (number_of_weights_inlayers leaves)"
    unfolding sum_list_nums using pos by linarith
  have "T \<le> memory_budget * 8 * 2 ^ 20" using feas unfolding T_def by simp
  then have "1 \<le> memory_budget * 8 * 2 ^ 20 / T" using Tpos by (simp add: le_divide_eq)
  then show "1 \<le> \<lfloor>memory_budget * 8 * 2 ^ 20 / real (sum_list (map numel leaves))\<rfloor>"
    unfolding T_def by linarith
  show "\<lfloor>memory_budget_bits memory_budget
            / real_of_int (sum_list (number_of_weights_inlayers leaves))\<rfloor>
         = \<lfloor>memory_budget * 8 * 2 ^ 20 / real (sum_list (map numel leaves))\<rfloor>"
    unfolding tot memory_budget_bits_def T_def ..
qed

text \<open>
  Claim C10. Let the uniform Stage 2 candidate be below \<open>minimum_accuracy\<close>, so that the
  raise phase runs, and let the raise phase end with an accuracy exactly equal to
  \<open>minimum_accuracy\<close>. If the lower phase has a first layer (and its index is one of the
  leaf layers), its inner loop does not run, \<open>prev_step2_acc\<close> is read before any
  assignment, and the search ends with an unbound-local error.
\<close>

theorem raise_exact_minimum_unbound_local:
  assumes "quantization_function_activations md" and "quantization_function_weights md"
    and s1: "step1 orc (leaf_children md) (step1_min_acc top_accuracy accuracy_tolerance) []
               = Some (Inr (r1, lg1))"
    and feas: "\<not> memory_budget * 8 * 2 ^ 20 < real (sum_list (map numel (leaf_children md)))"
    and pos: "0 < sum_list (map numel (leaf_children md))"
    and b2: "b2 = \<lfloor>memory_budget * 8 * 2 ^ 20 / real (sum_list (map numel (leaf_children md)))\<rfloor>"
    and w: "w = replicate (length (leaf_children md)) b2"
    and a: "a = replicate (length (leaf_children md)) (step1_bits r1)"
    and d: "d = replicate (length (filter routing (leaf_children md))) (step1_bits r1)"
    and below: "orc (w, a, d) < minimum_accuracy top_accuracy accuracy_tolerance"
    and raise: "raise_loop orc (minimum_accuracy top_accuracy accuracy_tolerance) a d
                  (orc (w, a, d)) w (lg1 @ [(w, a, d)])
                = Some (wr, minimum_accuracy top_accuracy accuracy_tolerance, lg2)"
    and tuples: "sqnr_tuples (weights_scale_factors_original md) = (key, s, idx) # ls"
    and idx: "idx < length (leaf_children md)"
  shows "qcapsnets orc md top_accuracy accuracy_tolerance memory_budget
           = Some (Inl UnboundLocalError)"
proof -
  let ?nums = "number_of_weights_inlayers (leaf_children md)"
  let ?m = "minimum_accuracy top_accuracy accuracy_tolerance"
  note ff = feasible_facts[OF feas pos]
  have wdef: "w = replicate (length a) \<lfloor>memory_budget_bits memory_budget / real_of_int (sum_list ?nums)\<rfloor>"
    unfolding ff(5) w b2 a by simp
  from raise_loop_result[OF raise] obtain k where "wr = map (\<lambda>b. b + int k) w" by auto
  then have len: "length wr = length (leaf_children md)" by (simp add: w)
  have lp: "lower_phase orc ?m ?nums (memory_budget_bits memory_budget) a d
      ((key, s, idx) # ls) wr ?m None lg2 = Inl UnboundLocalError"
    by (rule lower_phase_unbound) (simp add: len idx)
  have "step2 orc ?m ?nums memory_budget (sqnr_tuples (weights_scale_factors_original md)) a a d lg1
      = Some (Inl UnboundLocalError)"
    unfolding step2_raise_lower[OF ff(1) ff(2) wdef below raise] tuples lp by simp
  then show ?thesis
    unfolding qcapsnets_after_step1[OF assms(1,2) s1] a[symmetric] d[symmetric] by simp
qed

theorem raise_exact_minimum_unbound_local_witness:
  "qcapsnets two_layer_oracle two_layer_model 70 10 (25 / 1048576) = Some (Inl UnboundLocalError)"
proof -
  have h1: "quantization_function_activations two_layer_model"
    and h2: "quantization_function_weights two_layer_model"
    by (simp_all add: two_layer_model_def)
  have s1: "step1 two_layer_oracle (leaf_children two_layer_model) (step1_min_acc 70 10) [] =
     Some (Inr (\<lparr>step1_bits = 7, step1_acc = 141 / 2,
                  step1_bit_search = [32, 16, 8, 4, 6, 7],
                  step1_acc_list = [108, 84, 72, 66, 69, 141 / 2],
                  step1_bit_search_sat = [True, True, True, False, False, True]\<rparr>,
                [([32, 32], [32, 32], [32]), ([16, 16], [16, 16], [16]),
                 ([8, 8], [8, 8], [8]), ([4, 4], [4, 4], [4]),
                 ([6, 6], [6, 6], [6]), ([7, 7], [7, 7], [7])]))"
    by (simp add: two_layer_eval)
  have feas: "\<not> (25 / 1048576) * 8 * 2 ^ 20
      < real (sum_list (map numel (leaf_children two_layer_model)))"
    by (simp add: two_layer_model_def)
  have pos: "0 < sum_list (map numel (leaf_children two_layer_model))"
    by (simp add: two_layer_model_def)
  have b2: "(1::int) = \<lfloor>(25 / 1048576) * 8 * 2 ^ 20
      / real (sum_list (map numel (leaf_children two_layer_model)))\<rfloor>"
    by (simp add: two_layer_model_def)
  have w: "[1, 1] = replicate (length (leaf_children two_layer_model)) (1::int)"
    by (simp add: two_layer_model_def)
  have a: "[7, 7] = replicate (length (leaf_children two_layer_model))
      (step1_bits \<lparr>step1_bits = 7, step1_acc = 141 / 2,
                  step1_bit_search = [32, 16, 8, 4, 6, 7],
                  step1_acc_list = [108, 84, 72, 66, 69, 141 / 2],
                  step1_bit_search_sat = [True, True, True, False, False, True]\<rparr>)"
    by (simp add: two_layer_model_def)
  have d: "[7] = replicate (length (filter routing (leaf_children two_layer_model)))
      (step1_bits \<lparr>step1_bits = 7, step1_acc = 141 / 2,
                  step1_bit_search = [32, 16, 8, 4, 6, 7],
                  step1_acc_list = [108, 84, 72, 66, 69, 141 / 2],
                  step1_bit_search_sat = [True, True, True, False, False, True]\<rparr>)"
    by (simp add: two_layer_model_def routing_def)
  have below: "two_layer_oracle ([1, 1], [7, 7], [7]) < minimum_accuracy 70 10"
    by (simp add: minimum_accuracy_def two_layer_oracle_def)
  have raise: "raise_loop two_layer_oracle (minimum_accuracy 70 10) [7, 7] [7]
       (two_layer_oracle ([1, 1], [7, 7], [7])) [1, 1]
       ([([32, 32], [32, 32], [32]), ([16, 16], [16, 16], [16]),
         ([8, 8], [8, 8], [8]), ([4, 4], [4, 4], [4]),
         ([6, 6], [6, 6], [6]), ([7, 7], [7, 7], [7])] @ [([1, 1], [7, 7], [7])])
     = Some ([2, 2], minimum_accuracy 70 10,
         [([32, 32], [32, 32], [32]), ([16, 16], [16, 16], [16]),
          ([8, 8], [8, 8], [8]), ([4, 4], [4, 4], [4]),
          ([6, 6], [6, 6], [6]), ([7, 7], [7, 7], [7]), ([1, 1], [7, 7], [7]),
          ([2, 2], [7, 7], [7])])"
    by (simp add: two_layer_eval)
  have tuples: "sqnr_tuples (weights_scale_factors_original two_layer_model)
      = (''conv.weight'', 9, 0) # [(''caps.weight'', 5, 1)]"
    by (simp add: two_layer_model_def sqnr_tuples_def)
  have idx: "0 < length (leaf_children two_layer_model)"
    by (simp add: two_layer_model_def)
  show ?thesis
    by (rule raise_exact_minimum_unbound_local[OF h1 h2 s1 feas pos b2 w a d below raise tuples idx])
qed

section \<open>Stage 4A without a routing layer\<close>

lemma step4a_no_routing:
  "filter routing leaves = [] \<Longrightarrow> step4a orc m leaves w a d acc lg = Inl ZeroDivisionError"
  by (simp add: step4a_def py_truediv_def)

lemma branchA_no_routing:
  assumes "filter routing leaves = []"
  shows "branchA orc m leaves groups tot nums w a d acc lg \<noteq> Some (Inr (Satisfied c, lg'))"
  using assms
  by (auto simp: branchA_def step4a_no_routing split: option.splits sum.splits prod.splits)

text \<open>
  Claim C9. In a model where no leaf layer has both \<open>capsule_layer\<close> and
  \<open>dynamic_routing\<close>, Stage 4A raises ZeroDivisionError (the budget is divided by the
  number of routing layers, which is zero). So every run of the search that reaches
  Stage 4A, that is, in which Stage 1 returns, Stage 2 ends with a satisfied
  configuration and Stage 3A returns, ends with ZeroDivisionError; and no run of the
  search returns a satisfied configuration.
\<close>

theorem no_routing_layer_zero_division:
  assumes nr: "filter routing (leaf_children md) = []"
  shows "step4a orc m (leaf_children md) w a d acc lg = Inl ZeroDivisionError
     \<and> (quantization_function_activations md \<and> quantization_function_weights md
         \<and> step1 orc (leaf_children md) (step1_min_acc top_accuracy accuracy_tolerance) []
              = Some (Inr (r1, lg1))
         \<and> step2 orc (minimum_accuracy top_accuracy accuracy_tolerance)
              (number_of_weights_inlayers (leaf_children md)) memory_budget
              (sqnr_tuples (weights_scale_factors_original md))
              (replicate (length (leaf_children md)) (step1_bits r1))
              (replicate (length (leaf_children md)) (step1_bits r1))
              (replicate (length (filter routing (leaf_children md))) (step1_bits r1)) lg1
              = Some (Inr (Step2_satisfied w2 acc2, lg2))
         \<and> step3a orc (minimum_accuracy top_accuracy accuracy_tolerance)
              (act_sqnr_grouped_index (act_info_sqnr md)) w2
              (replicate (length (leaf_children md)) (step1_bits r1))
              (replicate (length (filter routing (leaf_children md))) (step1_bits r1)) acc2 lg2
              = Some (Inr (act3, acc3, lg3))
         \<longrightarrow> qcapsnets orc md top_accuracy accuracy_tolerance memory_budget
              = Some (Inl ZeroDivisionError))
     \<and> (step3a orc m groups w a d acc lg = Some (Inr (act3, acc3, lg3)) \<longrightarrow>
          branchA orc m (leaf_children md) groups tot nums w a d acc lg
            = Some (Inl ZeroDivisionError))
     \<and> (\<forall>c lg'. qcapsnets orc md top_accuracy accuracy_tolerance memory_budget
            \<noteq> Some (Inr (Satisfied c, lg')))"
proof (intro conjI allI impI)
  show "step4a orc m (leaf_children md) w a d acc lg = Inl ZeroDivisionError"
    by (rule step4a_no_routing[OF nr])
next
  assume run: "quantization_function_activations md \<and> quantization_function_weights md
         \<and> step1 orc (leaf_children md) (step1_min_acc top_accuracy accuracy_tolerance) []
              = Some (Inr (r1, lg1))
         \<and> step2 orc (minimum_accuracy top_accuracy accuracy_tolerance)
              (number_of_weights_inlayers (leaf_children md)) memory_budget
              (sqnr_tuples (weights_scale_factors_original md))
              (replicate (length (leaf_children md)) (step1_bits r1))
              (replicate (length (leaf_children md)) (step1_bits r1))
              (replicate (length (filter routing (leaf_children md))) (step1_bits r1)) lg1
              = Some (Inr (Step2_satisfied w2 acc2, lg2))
         \<and> step3a orc (minimum_accuracy top_accuracy accuracy_tolerance)
              (act_sqnr_grouped_index (act_info_sqnr md)) w2
              (replicate (length (leaf_children md)) (step1_bits r1))
              (replicate (length (filter routing (leaf_children md))) (step1_bits r1)) acc2 lg2
              = Some (Inr (act3, acc3, lg3))"
  then have h: "quantization_function_activations md" "quantization_function_weights md"
    and s1: "step1 orc (leaf_children md) (step1_min_acc top_accuracy accuracy_tolerance) []
              = Some (Inr (r1, lg1))"
    and s2: "step2 orc (minimum_accuracy top_accuracy accuracy_tolerance)
              (number_of_weights_inlayers (leaf_children md)) memory_budget
              (sqnr_tuples (weights_scale_factors_original md))
              (replicate (length (leaf_children md)) (step1_bits r1))
              (replicate (length (leaf_children md)) (step1_bits r1))
              (replicate (length (filter routing (leaf_children md))) (step1_bits r1)) lg1
              = Some (Inr (Step2_satisfied w2 acc2, lg2))"
    and s3: "step3a orc (minimum_accuracy top_accuracy accuracy_tolerance)
              (act_sqnr_grouped_index (act_info_sqnr md)) w2
              (replicate (length (leaf_children md)) (step1_bits r1))
              (replicate (length (filter routing (leaf_children md))) (step1_bits r1)) acc2 lg2
              = Some (Inr (act3, acc3, lg3))"
    by blast+
  show "qcapsnets orc md top_accuracy accuracy_tolerance memory_budget
      = Some (Inl ZeroDivisionError)"
    unfolding qcapsnets_after_step1[OF h s1] s2
    by (simp add: branchA_def s3 step4a_no_routing[OF nr])
next
  assume "step3a orc m groups w a d acc lg = Some (Inr (act3, acc3, lg3))"
  then show "branchA orc m (leaf_children md) groups tot nums w a d acc lg
      = Some (Inl ZeroDivisionError)"
    by (simp add: branchA_def step4a_no_routing[OF nr])
next
  fix c lg'
  show "qcapsnets orc md top_accuracy accuracy_tolerance memory_budget
      \<noteq> Some (Inr (Satisfied c, lg'))"
    using branchA_no_routing[OF nr]
    by (auto simp: qcapsnets_def Let_def split: option.splits sum.splits prod.splits
        step2_result.splits dest: branchB_return_shape)
qed

theorem no_routing_layer_zero_division_witness:
  "qcapsnets two_layer_oracle plain_model 70 10 (100 / 1048576) = Some (Inl ZeroDivisionError)"
proof -
  have nr: "filter routing (leaf_children plain_model) = []"
    by (simp add: plain_model_def routing_def)
  have h1: "quantization_function_activations plain_model"
    and h2: "quantization_function_weights plain_model"
    by (simp_all add: plain_model_def)
  have s1: "step1 two_layer_oracle (leaf_children plain_model) (step1_min_acc 70 10) [] =
     Some (Inr (\<lparr>step1_bits = 7, step1_acc = 141 / 2,
                  step1_bit_search = [32, 16, 8, 4, 6, 7],
                  step1_acc_list = [108, 84, 72, 66, 69, 141 / 2],
                  step1_bit_search_sat = [True, True, True, False, False, True]\<rparr>,
                [([32, 32], [32, 32], []), ([16, 16], [16, 16], []),
                 ([8, 8], [8, 8], []), ([4, 4], [4, 4], []),
                 ([6, 6], [6, 6], []), ([7, 7], [7, 7], [])]))"
    by (simp add: two_layer_eval plain_model_def)
  have s2: "step2 two_layer_oracle (minimum_accuracy 70 10)
       (number_of_weights_inlayers (leaf_children plain_model)) (100 / 1048576)
       (sqnr_tuples (weights_scale_factors_original plain_model))
       (replicate (length (leaf_children plain_model))
          (step1_bits \<lparr>step1_bits = 7, step1_acc = 141 / 2,
                  step1_bit_search = [32, 16, 8, 4, 6, 7],
                  step1_acc_list = [108, 84, 72, 66, 69, 141 / 2],
                  step1_bit_search_sat = [True, True, True, False, False, True]\<rparr>))
       (replicate (length (leaf_children plain_model))
          (step1_bits \<lparr>step1_bits = 7, step1_acc = 141 / 2,
                  step1_bit_search = [32, 16, 8, 4, 6, 7],
                  step1_acc_list = [108, 84, 72, 66, 69, 141 / 2],
                  step1_bit_search_sat = [True, True, True, False, False, True]\<rparr>))
       (replicate (length (filter routing (leaf_children plain_model)))
          (step1_bits \<lparr>step1_bits = 7, step1_acc = 141 / 2,
                  step1_bit_search = [32, 16, 8, 4, 6, 7],
                  step1_acc_list = [108, 84, 72, 66, 69, 141 / 2],
                  step1_bit_search_sat = [True, True, True, False, False, True]\<rparr>))
       [([32, 32], [32, 32], []), ([16, 16], [16, 16], []),
        ([8, 8], [8, 8], []), ([4, 4], [4, 4], []),
        ([6, 6], [6, 6], []), ([7, 7], [7, 7], [])]
     = Some (Inr (Step2_satisfied [4, 4] 66,
         [([32, 32], [32, 32], []), ([16, 16], [16, 16], []),
          ([8, 8], [8, 8], []), ([4, 4], [4, 4], []),
          ([6, 6], [6, 6], []), ([7, 7], [7, 7], []), ([4, 4], [7, 7], [])]))"
    by (simp add: two_layer_eval plain_model_def)
  have s3: "step3a two_layer_oracle (minimum_accuracy 70 10)
       (act_sqnr_grouped_index (act_info_sqnr plain_model)) [4, 4]
       (replicate (length (leaf_children plain_model))
          (step1_bits \<lparr>step1_bits = 7, step1_acc = 141 / 2,
                  step1_bit_search = [32, 16, 8, 4, 6, 7],
                  step1_acc_list = [108, 84, 72, 66, 69, 141 / 2],
                  step1_bit_search_sat = [True, True, True, False, False, True]\<rparr>))
       (replicate (length (filter routing (leaf_children plain_model)))
          (step1_bits \<lparr>step1_bits = 7, step1_acc = 141 / 2,
                  step1_bit_search = [32, 16, 8, 4, 6, 7],
                  step1_acc_list = [108, 84, 72, 66, 69, 141 / 2],
                  step1_bit_search_sat = [True, True, True, False, False, True]\<rparr>))
       66
       [([32, 32], [32, 32], []), ([16, 16], [16, 16], []),
        ([8, 8], [8, 8], []), ([4, 4], [4, 4], []),
        ([6, 6], [6, 6], []), ([7, 7], [7, 7], []), ([4, 4], [7, 7], [])]
     = Some (Inr ([2, 2], 66,
         [([32, 32], [32, 32], []), ([16, 16], [16, 16], []),
          ([8, 8], [8, 8], []), ([4, 4], [4, 4], []),
          ([6, 6], [6, 6], []), ([7, 7], [7, 7], []), ([4, 4], [7, 7], []),
          ([4, 4], [7, 6], []), ([4, 4], [7, 5], []),
          ([4, 4], [7, 4], []), ([4, 4], [7, 3], []),
          ([4, 4], [7, 2], []), ([4, 4], [6, 2], []),
          ([4, 4], [5, 2], []), ([4, 4], [4, 2], []),
          ([4, 4], [3, 2], []), ([4, 4], [2, 2], [])]))"
    by (simp add: two_layer_eval plain_model_def)
  from conjunct1[OF conjunct2[OF no_routing_layer_zero_division[OF nr]]] h1 h2 s1 s2 s3
  show ?thesis by blast
qed

section \<open>Stage 2: one layer of the lower phase\<close>

lemma lowered_simps:
  "lowered w idx 0 = w"
  "length (lowered w idx j) = length w"
  "idx < length w \<Longrightarrow> lowered w idx j ! idx = w ! idx - int j"
  "idx < length w \<Longrightarrow> lowered (lowered w idx 1) idx j = lowered w idx (Suc j)"
  by (simp_all add: lowered_def algebra_simps)

lemma map_upt_shift:
  "map f [1..<Suc (Suc k)] = f 1 # map (\<lambda>j. f (Suc j)) [1..<Suc k]"
proof -
  have "[1..<Suc (Suc k)] = 1 # map Suc [1..<Suc k]"
    by (metis One_nat_def map_Suc_upt upt_conv_Cons zero_less_Suc less_Suc_eq_0_disj Suc_less_eq)
  then show ?thesis by (simp add: o_def)
qed

lemma lower_loop_runs:
  assumes "m < acc" "idx < length w" "1 < w ! idx"
  shows "\<exists>k\<ge>1. int k < w ! idx
      \<and> (\<forall>j. 1 \<le> j \<and> j < k \<longrightarrow> m < orc (lowered w idx j, a, d))
      \<and> (\<not> m < orc (lowered w idx k, a, d) \<or> w ! idx - int k = 1)
      \<and> lower_loop orc m a d idx w acc prev lg =
           Inr (lowered w idx k, orc (lowered w idx k, a, d),
                Some (if k = 1 then acc else orc (lowered w idx (k - 1), a, d)),
                lg @ map (\<lambda>j. (lowered w idx j, a, d)) [1..<Suc k])"
  using assms
proof (induction "nat (w ! idx)" arbitrary: w acc prev lg rule: less_induct)
  case less
  let ?w1 = "lowered w idx 1"
  have step: "lower_loop orc m a d idx w acc prev lg =
      lower_loop orc m a d idx ?w1 (orc (?w1, a, d)) (Some acc) (lg @ [(?w1, a, d)])"
    using lower_loop_step[OF less.prems] by (simp add: lowered_def)
  have w1i: "?w1 ! idx = w ! idx - 1" "idx < length ?w1"
    using less.prems(2) by (simp_all add: lowered_def)
  show ?case
  proof (cases "m < orc (?w1, a, d) \<and> 1 < ?w1 ! idx")
    case False
    have stop: "lower_loop orc m a d idx ?w1 (orc (?w1, a, d)) (Some acc) (lg @ [(?w1, a, d)])
         = Inr (?w1, orc (?w1, a, d), Some acc, lg @ [(?w1, a, d)])"
    proof (cases "m < orc (?w1, a, d)")
      case True
      then have "\<not> 1 < ?w1 ! idx" using False by simp
      then show ?thesis using True w1i(2) by (intro lower_loop_stop(3)) simp_all
    next
      case False
      then show ?thesis by (rule lower_loop_stop(1))
    qed
    have c: "\<not> m < orc (?w1, a, d) \<or> w ! idx - int 1 = 1"
      using False w1i(1) less.prems(3) by auto
    have "1 \<le> (1::nat) \<and> int 1 < w ! idx
      \<and> (\<forall>j. 1 \<le> j \<and> j < (1::nat) \<longrightarrow> m < orc (lowered w idx j, a, d))
      \<and> (\<not> m < orc (lowered w idx 1, a, d) \<or> w ! idx - int 1 = 1)
      \<and> lower_loop orc m a d idx w acc prev lg =
           Inr (lowered w idx 1, orc (lowered w idx 1, a, d),
                Some (if (1::nat) = 1 then acc else orc (lowered w idx (1 - 1), a, d)),
                lg @ map (\<lambda>j. (lowered w idx j, a, d)) [1..<Suc 1])"
      using less.prems(3) c step stop by simp
    then show ?thesis by (rule exI)
  next
    case True
    have lt: "nat (?w1 ! idx) < nat (w ! idx)" using w1i(1) less.prems(3) by simp
    from less.hyps[OF lt conjunct1[OF True] w1i(2) conjunct2[OF True],
        of "Some acc" "lg @ [(?w1, a, d)]"]
    obtain k where k: "1 \<le> k" "int k < ?w1 ! idx"
      "\<forall>j. 1 \<le> j \<and> j < k \<longrightarrow> m < orc (lowered ?w1 idx j, a, d)"
      "\<not> m < orc (lowered ?w1 idx k, a, d) \<or> ?w1 ! idx - int k = 1"
      "lower_loop orc m a d idx ?w1 (orc (?w1, a, d)) (Some acc) (lg @ [(?w1, a, d)]) =
           Inr (lowered ?w1 idx k, orc (lowered ?w1 idx k, a, d),
                Some (if k = 1 then orc (?w1, a, d) else orc (lowered ?w1 idx (k - 1), a, d)),
                (lg @ [(?w1, a, d)]) @ map (\<lambda>j. (lowered ?w1 idx j, a, d)) [1..<Suc k])"
      by blast
    note sh = lowered_simps(4)[OF less.prems(2)]
    have c1: "int (Suc k) < w ! idx" using k(2) w1i(1) by simp
    have c2: "\<forall>j. 1 \<le> j \<and> j < Suc k \<longrightarrow> m < orc (lowered w idx j, a, d)"
    proof (intro allI impI)
      fix j assume j: "1 \<le> j \<and> j < Suc k"
      show "m < orc (lowered w idx j, a, d)"
      proof (cases "j = 1")
        case True
        then show ?thesis using \<open>m < orc (?w1, a, d) \<and> 1 < ?w1 ! idx\<close> by simp
      next
        case False
        then obtain j' where j': "j = Suc j'" "1 \<le> j'" "j' < k" using j by (cases j) auto
        then have "m < orc (lowered ?w1 idx j', a, d)" using k(3) by simp
        then show ?thesis unfolding sh j'(1) .
      qed
    qed
    have c3: "\<not> m < orc (lowered w idx (Suc k), a, d) \<or> w ! idx - int (Suc k) = 1"
      using k(4) w1i(1) unfolding sh by auto
    have pv: "(if k = 1 then orc (?w1, a, d) else orc (lowered ?w1 idx (k - 1), a, d))
        = orc (lowered w idx (Suc k - 1), a, d)"
    proof (cases "k = 1")
      case True
      then show ?thesis by simp
    next
      case False
      then obtain k' where k': "k = Suc k'" using k(1) by (cases k) auto
      have "lowered ?w1 idx k' = lowered w idx (Suc k')" by (rule sh)
      then show ?thesis using False unfolding k' by simp
    qed
    have lgs: "(lg @ [(?w1, a, d)]) @ map (\<lambda>j. (lowered ?w1 idx j, a, d)) [1..<Suc k]
        = lg @ map (\<lambda>j. (lowered w idx j, a, d)) [1..<Suc (Suc k)]"
      unfolding map_upt_shift[of "\<lambda>j. (lowered w idx j, a, d)" k] sh by simp
    have c4: "lower_loop orc m a d idx w acc prev lg =
           Inr (lowered w idx (Suc k), orc (lowered w idx (Suc k), a, d),
                Some (if Suc k = 1 then acc else orc (lowered w idx (Suc k - 1), a, d)),
                lg @ map (\<lambda>j. (lowered w idx j, a, d)) [1..<Suc (Suc k)])"
    proof -
      have "lower_loop orc m a d idx w acc prev lg =
           Inr (lowered ?w1 idx k, orc (lowered ?w1 idx k, a, d),
                Some (orc (lowered w idx (Suc k - 1), a, d)),
                lg @ map (\<lambda>j. (lowered w idx j, a, d)) [1..<Suc (Suc k)])"
        unfolding step k(5) pv lgs by (rule refl)
      moreover have "lowered ?w1 idx k = lowered w idx (Suc k)" by (rule sh)
      moreover have "Suc k \<noteq> 1" using k(1) by simp
      ultimately show ?thesis by (simp only: if_False)
    qed
    have "1 \<le> Suc k \<and> int (Suc k) < w ! idx
      \<and> (\<forall>j. 1 \<le> j \<and> j < Suc k \<longrightarrow> m < orc (lowered w idx j, a, d))
      \<and> (\<not> m < orc (lowered w idx (Suc k), a, d) \<or> w ! idx - int (Suc k) = 1)
      \<and> lower_loop orc m a d idx w acc prev lg =
           Inr (lowered w idx (Suc k), orc (lowered w idx (Suc k), a, d),
                Some (if Suc k = 1 then acc else orc (lowered w idx (Suc k - 1), a, d)),
                lg @ map (\<lambda>j. (lowered w idx j, a, d)) [1..<Suc (Suc k)])"
      using c1 c2 c3 c4 by simp
    then show ?thesis by (rule exI)
  qed
qed

lemma sqnr_tuples_descending:
  "sorted_wrt (\<lambda>x y. fst (snd y) \<le> fst (snd x)) (sqnr_tuples info)"
proof -
  have "sorted (map (\<lambda>tup. - fst (snd tup)) (sqnr_tuples info))"
    unfolding sqnr_tuples_def by (rule sorted_sort_key)
  then show ?thesis by (simp add: sorted_wrt_map)
qed

lemma lowered_restore:
  assumes "idx < length w" "1 \<le> k"
  shows "(lowered w idx k)[idx := lowered w idx k ! idx + 1] = lowered w idx (k - 1)"
proof -
  have "int (k - 1) = int k - 1" using assms(2) by (simp add: of_nat_diff)
  then have e: "lowered w idx k ! idx + 1 = w ! idx - int (k - 1)"
    using assms(1) by (simp add: lowered_simps(3))
  show ?thesis unfolding e unfolding lowered_def by simp
qed

text \<open>
  Claim C3, as the code has it. The lower phase visits the layers in the order of
  \<open>sqnr_tuples\<close>, which is sorted by SQNR, highest first. Let a layer be entered with an
  accuracy strictly above \<open>minimum_accuracy\<close> and more than one bit. Its bit-width is
  decremented and the model re-evaluated \<open>k \<ge> 1\<close> times: every evaluation before the
  last is strictly above \<open>minimum_accuracy\<close>, and the last one is not, or has brought
  the layer to one bit. An accuracy equal to \<open>minimum_accuracy\<close> ends the loop. When the
  loop ends on the accuracy, the bit-width before the last decrement and the accuracy
  measured there (strictly above the minimum) are restored; the memory of the restored
  configuration is computed at once, and if it fits the budget the lower phase stops
  with \<open>branchB = False\<close>, else the next layer is visited from the restored
  configuration. When the lower phase stops in this way, Stage 2 ends with this
  configuration as the satisfied one, which is what Stage 3A receives.
\<close>

theorem lower_phase_layer_step:
  assumes acc: "m < acc" and idx: "idx < length w" and b: "1 < w ! idx"
    and len: "length w \<le> length nums"
  shows "sorted_wrt (\<lambda>x y. fst (snd y) \<le> fst (snd x)) (sqnr_tuples info)
     \<and> (\<exists>k\<ge>1. int k < w ! idx
          \<and> (\<forall>j. 1 \<le> j \<and> j < k \<longrightarrow> m < orc (lowered w idx j, a, d))
          \<and> (\<not> m < orc (lowered w idx k, a, d) \<or> w ! idx - int k = 1)
          \<and> lower_loop orc m a d idx w acc prev lg =
               Inr (lowered w idx k, orc (lowered w idx k, a, d),
                    Some (if k = 1 then acc else orc (lowered w idx (k - 1), a, d)),
                    lg @ map (\<lambda>j. (lowered w idx j, a, d)) [1..<Suc k])
          \<and> (\<not> m < orc (lowered w idx k, a, d) \<longrightarrow>
                m < (if k = 1 then acc else orc (lowered w idx (k - 1), a, d))
              \<and> lower_phase orc m nums bb a d ((key, s, idx) # ls) w acc prev lg =
                  (if real_of_int (\<Sum>i\<leftarrow>[0..<length w]. lowered w idx (k - 1) ! i * nums ! i) \<le> bb
                   then Inr (False, lowered w idx (k - 1),
                             (if k = 1 then acc else orc (lowered w idx (k - 1), a, d)),
                             lg @ map (\<lambda>j. (lowered w idx j, a, d)) [1..<Suc k])
                   else lower_phase orc m nums bb a d ls (lowered w idx (k - 1))
                          (if k = 1 then acc else orc (lowered w idx (k - 1), a, d))
                          (Some (if k = 1 then acc else orc (lowered w idx (k - 1), a, d)))
                          (lg @ map (\<lambda>j. (lowered w idx j, a, d)) [1..<Suc k]))))
     \<and> (\<not> memory_budget_bits budget < real_of_int (sum_list nums) \<and> sum_list nums \<noteq> 0
          \<and> w0 = replicate (length w1)
                   \<lfloor>memory_budget_bits budget / real_of_int (sum_list nums)\<rfloor>
          \<and> orc (w0, a, d) < m
          \<and> raise_loop orc m a d (orc (w0, a, d)) w0 (lg0 @ [(w0, a, d)]) = Some (wr, accr, lg2)
          \<and> lower_phase orc m nums (memory_budget_bits budget) a d tuples wr accr None lg2
                = Inr (False, w3, acc3, lg3)
          \<longrightarrow> step2 orc m nums budget tuples w1 a d lg0
                = Some (Inr (Step2_satisfied w3 acc3, lg3)))"
proof -
  have proceed: "step2 orc m nums budget tuples w1 a d lg0
                = Some (Inr (Step2_satisfied w3 acc3, lg3))"
    if "\<not> memory_budget_bits budget < real_of_int (sum_list nums)" "sum_list nums \<noteq> 0"
       "w0 = replicate (length w1) \<lfloor>memory_budget_bits budget / real_of_int (sum_list nums)\<rfloor>"
       "orc (w0, a, d) < m"
       "raise_loop orc m a d (orc (w0, a, d)) w0 (lg0 @ [(w0, a, d)]) = Some (wr, accr, lg2)"
       "lower_phase orc m nums (memory_budget_bits budget) a d tuples wr accr None lg2
                = Inr (False, w3, acc3, lg3)"
    unfolding step2_raise_lower[OF that(1,2,3,4,5)] that(6) by simp
  from lower_loop_runs[OF acc idx b, of orc a d prev lg] obtain k where
    k: "1 \<le> k" "int k < w ! idx"
      "\<forall>j. 1 \<le> j \<and> j < k \<longrightarrow> m < orc (lowered w idx j, a, d)"
      "\<not> m < orc (lowered w idx k, a, d) \<or> w ! idx - int k = 1"
      "lower_loop orc m a d idx w acc prev lg =
           Inr (lowered w idx k, orc (lowered w idx k, a, d),
                Some (if k = 1 then acc else orc (lowered w idx (k - 1), a, d)),
                lg @ map (\<lambda>j. (lowered w idx j, a, d)) [1..<Suc k])"
    by blast
  define acc2 where "acc2 = (if k = 1 then acc else orc (lowered w idx (k - 1), a, d))"
  define lg1 where "lg1 = lg @ map (\<lambda>j. (lowered w idx j, a, d)) [1..<Suc k]"
  define w2 where "w2 = lowered w idx (k - 1)"
  have pass: "m < acc2"
  proof (cases "k = 1")
    case True
    then show ?thesis using acc by (simp add: acc2_def)
  next
    case False
    then have "1 \<le> k - 1 \<and> k - 1 < k" using k(1) by simp
    then have "m < orc (lowered w idx (k - 1), a, d)" using k(3) by blast
    then show ?thesis using False by (simp add: acc2_def)
  qed
  have pi: "py_index (lowered w idx k) idx = Inr (lowered w idx k ! idx)"
    using idx by (simp add: py_index_def lowered_def)
  have rs: "(lowered w idx k)[idx := lowered w idx k ! idx + 1] = w2"
    unfolding w2_def by (rule lowered_restore[OF idx k(1)])
  have sp: "py_sum_products w2 nums (length w2) = Inr (\<Sum>i\<leftarrow>[0..<length w]. w2 ! i * nums ! i)"
    using len by (simp add: py_sum_products_def w2_def lowered_def)
  have lp: "lower_phase orc m nums bb a d ((key, s, idx) # ls) w acc prev lg =
      (if real_of_int (\<Sum>i\<leftarrow>[0..<length w]. w2 ! i * nums ! i) \<le> bb
       then Inr (False, w2, acc2, lg1)
       else lower_phase orc m nums bb a d ls w2 acc2 (Some acc2) lg1)"
    using k(5) unfolding acc2_def[symmetric] lg1_def[symmetric]
    by (simp add: pi rs sp Let_def)
  have "1 \<le> k \<and> int k < w ! idx
          \<and> (\<forall>j. 1 \<le> j \<and> j < k \<longrightarrow> m < orc (lowered w idx j, a, d))
          \<and> (\<not> m < orc (lowered w idx k, a, d) \<or> w ! idx - int k = 1)
          \<and> lower_loop orc m a d idx w acc prev lg =
               Inr (lowered w idx k, orc (lowered w idx k, a, d), Some acc2, lg1)
          \<and> (\<not> m < orc (lowered w idx k, a, d) \<longrightarrow>
                m < acc2
              \<and> lower_phase orc m nums bb a d ((key, s, idx) # ls) w acc prev lg =
                  (if real_of_int (\<Sum>i\<leftarrow>[0..<length w]. w2 ! i * nums ! i) \<le> bb
                   then Inr (False, w2, acc2, lg1)
                   else lower_phase orc m nums bb a d ls w2 acc2 (Some acc2) lg1))"
    using k(1,2,3,4) k(5)[folded acc2_def lg1_def] pass lp by blast
  then have "\<exists>k\<ge>1. int k < w ! idx
          \<and> (\<forall>j. 1 \<le> j \<and> j < k \<longrightarrow> m < orc (lowered w idx j, a, d))
          \<and> (\<not> m < orc (lowered w idx k, a, d) \<or> w ! idx - int k = 1)
          \<and> lower_loop orc m a d idx w acc prev lg =
               Inr (lowered w idx k, orc (lowered w idx k, a, d),
                    Some (if k = 1 then acc else orc (lowered w idx (k - 1), a, d)),
                    lg @ map (\<lambda>j. (lowered w idx j, a, d)) [1..<Suc k])
          \<and> (\<not> m < orc (lowered w idx k, a, d) \<longrightarrow>
                m < (if k = 1 then acc else orc (lowered w idx (k - 1), a, d))
              \<and> lower_phase orc m nums bb a d ((key, s, idx) # ls) w acc prev lg =
                  (if real_of_int (\<Sum>i\<leftarrow>[0..<length w]. lowered w idx (k - 1) ! i * nums ! i) \<le> bb
                   then Inr (False, lowered w idx (k - 1),
                             (if k = 1 then acc else orc (lowered w idx (k - 1), a, d)),
                             lg @ map (\<lambda>j. (lowered w idx j, a, d)) [1..<Suc k])
                   else lower_phase orc m nums bb a d ls (lowered w idx (k - 1))
                          (if k = 1 then acc else orc (lowered w idx (k - 1), a, d))
                          (Some (if k = 1 then acc else orc (lowered w idx (k - 1), a, d)))
                          (lg @ map (\<lambda>j. (lowered w idx j, a, d)) [1..<Suc k])))"
    unfolding acc2_def lg1_def w2_def by (intro exI[of _ k])
  then show ?thesis using sqnr_tuples_descending proceed by blast
qed

theorem lower_phase_layer_step_witness:
  "sorted_wrt (\<lambda>x y. fst (snd y) \<le> fst (snd x))
       (sqnr_tuples (weights_scale_factors_original two_layer_model))
     \<and> (\<exists>k\<ge>1. int k < [3, 3] ! 0
          \<and> (\<forall>j. 1 \<le> j \<and> j < k \<longrightarrow> 64 < two_layer_oracle (lowered [3, 3] 0 j, [13, 13], [13]))
          \<and> (\<not> 64 < two_layer_oracle (lowered [3, 3] 0 k, [13, 13], [13]) \<or> [3, 3] ! 0 - int k = 1)
          \<and> lower_loop two_layer_oracle 64 [13, 13] [13] 0 [3, 3] (129 / 2) None [] =
               Inr (lowered [3, 3] 0 k, two_layer_oracle (lowered [3, 3] 0 k, [13, 13], [13]),
                    Some (if k = 1 then 129 / 2
                          else two_layer_oracle (lowered [3, 3] 0 (k - 1), [13, 13], [13])),
                    [] @ map (\<lambda>j. (lowered [3, 3] 0 j, [13, 13], [13])) [1..<Suc k])
          \<and> (\<not> 64 < two_layer_oracle (lowered [3, 3] 0 k, [13, 13], [13]) \<longrightarrow>
                64 < (if k = 1 then 129 / 2
                      else two_layer_oracle (lowered [3, 3] 0 (k - 1), [13, 13], [13]))
              \<and> lower_phase two_layer_oracle 64 [100, 100] 200 [13, 13] [13]
                    ((''conv.weight'', 9, 0) # [(''caps.weight'', 5, 1)]) [3, 3] (129 / 2) None [] =
                  (if real_of_int (\<Sum>i\<leftarrow>[0..<length [3, 3 :: int]].
                                      lowered [3, 3] 0 (k - 1) ! i * [100, 100] ! i) \<le> 200
                   then Inr (False, lowered [3, 3] 0 (k - 1),
                             (if k = 1 then 129 / 2
                              else two_layer_oracle (lowered [3, 3] 0 (k - 1), [13, 13], [13])),
                             [] @ map (\<lambda>j. (lowered [3, 3] 0 j, [13, 13], [13])) [1..<Suc k])
                   else lower_phase two_layer_oracle 64 [100, 100] 200 [13, 13] [13]
                          [(''caps.weight'', 5, 1)] (lowered [3, 3] 0 (k - 1))
                          (if k = 1 then 129 / 2
                           else two_layer_oracle (lowered [3, 3] 0 (k - 1), [13, 13], [13]))
                          (Some (if k = 1 then 129 / 2
                                 else two_layer_oracle (lowered [3, 3] 0 (k - 1), [13, 13], [13])))
                          ([] @ map (\<lambda>j. (lowered [3, 3] 0 j, [13, 13], [13])) [1..<Suc k]))))"
proof -
  have h1: "(64::real) < 129 / 2" by simp
  have h2: "0 < length [3, 3 :: int]" by simp
  have h3: "1 < [3, 3 :: int] ! 0" by simp
  have h4: "length [3, 3 :: int] \<le> length [100, 100 :: int]" by simp
  show ?thesis
    by (rule conjI[OF conjunct1[OF lower_phase_layer_step[OF h1 h2 h3 h4]]
          conjunct1[OF conjunct2[OF lower_phase_layer_step[OF h1 h2 h3 h4]]]])
qed

text \<open>
  The claim as stated fails on the example with \<open>minimum_accuracy = 64.25\<close>: after the
  first decrement of layer 0 the weights \<open>[2, 3]\<close> have accuracy 64.25, not below the
  minimum, and the layer has 2 bits; the claim has the layer decremented again, but the
  log shows that \<open>[1, 3]\<close> is never evaluated and the layer is restored to 3 bits.
\<close>

theorem lower_phase_counterexample:
  "minimum_accuracy (257 / 2) 50 \<le> two_layer_oracle ([2, 3], [32, 32], [32])
   \<and> (1::int) < [2, 3] ! 0
   \<and> qcapsnets two_layer_oracle two_layer_model (257 / 2) 50 (25 / 1048576)
     = Some (Inr (Two_models
         \<lparr>weight_bits = [1, 1], act_bits = [32, 32], dr_bits = [32], accuracy = 123 / 2,
           wmem_reduction = 32\<rparr>
         \<lparr>weight_bits = [3, 3], act_bits = [32, 32], dr_bits = [32], accuracy = 129 / 2,
           wmem_reduction = 32 / 3\<rparr>,
         [([32, 32], [32, 32], [32]), ([1, 1], [32, 32], [32]),
          ([2, 2], [32, 32], [32]), ([3, 3], [32, 32], [32]),
          ([2, 3], [32, 32], [32]), ([3, 2], [32, 32], [32]),
          ([3, 3], [32, 32], [32])]))"
  by (simp add: two_layer_eval)

section \<open>Stage 2: the two configurations returned when the constraints conflict\<close>

lemma sum_products_commute:
  "length w = length nums \<Longrightarrow>
     (\<Sum>i\<leftarrow>[0..<length w]. w ! i * nums ! i) = (\<Sum>i\<leftarrow>[0..<length nums]. nums ! i * (w ! i :: int))"
  by (simp add: mult.commute)

lemma raise_loop_triple:
  assumes "raise_loop orc m a d acc w lg = Some (wr, accr, lg2)"
  shows "\<exists>k. wr = map (\<lambda>b. b + int k) w \<and> m \<le> accr \<and> (acc < m \<longrightarrow> 0 < k)"
proof -
  from raise_loop_result[OF assms] obtain k where
    k: "fst (wr, accr, lg2) = map (\<lambda>b. b + int k) w" "m \<le> fst (snd (wr, accr, lg2))"
       "if k = 0 then fst (snd (wr, accr, lg2)) = acc \<and> snd (snd (wr, accr, lg2)) = lg
        else fst (snd (wr, accr, lg2)) = orc (fst (wr, accr, lg2), a, d) \<and> acc < m"
    by blast
  have 1: "wr = map (\<lambda>b. b + int k) w" using k(1) by simp
  have 2: "m \<le> accr" using k(2) by simp
  have 3: "acc < m \<longrightarrow> 0 < k"
  proof
    assume "acc < m"
    show "0 < k"
    proof (rule ccontr)
      assume "\<not> 0 < k"
      then have "accr = acc" using k(3) by simp
      then show False using 2 \<open>acc < m\<close> by simp
    qed
  qed
  show ?thesis using 1 2 3 by blast
qed

lemma lower_phase_layer:
  assumes acc: "m < acc" and idx: "idx < length w" and b: "1 < w ! idx"
    and len: "length w \<le> length nums"
  shows "\<exists>k\<ge>1. int k < w ! idx
      \<and> (k = 1 \<or> m < orc (lowered w idx (k - 1), a, d))
      \<and> lower_phase orc m nums bb a d ((key, s, idx) # ls) w acc prev lg =
          (if real_of_int (\<Sum>i\<leftarrow>[0..<length w]. lowered w idx (k - 1) ! i * nums ! i) \<le> bb
           then Inr (False, lowered w idx (k - 1),
                     (if k = 1 then acc else orc (lowered w idx (k - 1), a, d)),
                     lg @ map (\<lambda>j. (lowered w idx j, a, d)) [1..<Suc k])
           else lower_phase orc m nums bb a d ls (lowered w idx (k - 1))
                  (if k = 1 then acc else orc (lowered w idx (k - 1), a, d))
                  (Some (if k = 1 then acc else orc (lowered w idx (k - 1), a, d)))
                  (lg @ map (\<lambda>j. (lowered w idx j, a, d)) [1..<Suc k]))"
proof -
  from lower_loop_runs[OF acc idx b, of orc a d prev lg] obtain k where
    k: "1 \<le> k" "int k < w ! idx"
      "\<forall>j. 1 \<le> j \<and> j < k \<longrightarrow> m < orc (lowered w idx j, a, d)"
      "lower_loop orc m a d idx w acc prev lg =
           Inr (lowered w idx k, orc (lowered w idx k, a, d),
                Some (if k = 1 then acc else orc (lowered w idx (k - 1), a, d)),
                lg @ map (\<lambda>j. (lowered w idx j, a, d)) [1..<Suc k])"
    by blast
  define acc2 where "acc2 = (if k = 1 then acc else orc (lowered w idx (k - 1), a, d))"
  define lg1 where "lg1 = lg @ map (\<lambda>j. (lowered w idx j, a, d)) [1..<Suc k]"
  define w2 where "w2 = lowered w idx (k - 1)"
  have pass: "k = 1 \<or> m < orc (lowered w idx (k - 1), a, d)"
  proof (cases "k = 1")
    case True
    then show ?thesis by simp
  next
    case False
    then have "1 \<le> k - 1 \<and> k - 1 < k" using k(1) by simp
    then have "m < orc (lowered w idx (k - 1), a, d)" using k(3) by blast
    then show ?thesis by simp
  qed
  have pi: "py_index (lowered w idx k) idx = Inr (lowered w idx k ! idx)"
    using idx by (simp add: py_index_def lowered_def)
  have rs: "(lowered w idx k)[idx := lowered w idx k ! idx + 1] = w2"
    unfolding w2_def by (rule lowered_restore[OF idx k(1)])
  have sp: "py_sum_products w2 nums (length w2) = Inr (\<Sum>i\<leftarrow>[0..<length w]. w2 ! i * nums ! i)"
    using len by (simp add: py_sum_products_def w2_def lowered_def)
  have lp: "lower_phase orc m nums bb a d ((key, s, idx) # ls) w acc prev lg =
      (if real_of_int (\<Sum>i\<leftarrow>[0..<length w]. w2 ! i * nums ! i) \<le> bb
       then Inr (False, w2, acc2, lg1)
       else lower_phase orc m nums bb a d ls w2 acc2 (Some acc2) lg1)"
    using k(4) unfolding acc2_def[symmetric] lg1_def[symmetric]
    by (simp add: pi rs sp Let_def)
  have "1 \<le> k \<and> int k < w ! idx
      \<and> (k = 1 \<or> m < orc (lowered w idx (k - 1), a, d))
      \<and> lower_phase orc m nums bb a d ((key, s, idx) # ls) w acc prev lg =
          (if real_of_int (\<Sum>i\<leftarrow>[0..<length w]. lowered w idx (k - 1) ! i * nums ! i) \<le> bb
           then Inr (False, lowered w idx (k - 1),
                     (if k = 1 then acc else orc (lowered w idx (k - 1), a, d)),
                     lg @ map (\<lambda>j. (lowered w idx j, a, d)) [1..<Suc k])
           else lower_phase orc m nums bb a d ls (lowered w idx (k - 1))
                  (if k = 1 then acc else orc (lowered w idx (k - 1), a, d))
                  (Some (if k = 1 then acc else orc (lowered w idx (k - 1), a, d)))
                  (lg @ map (\<lambda>j. (lowered w idx j, a, d)) [1..<Suc k]))"
    using k(1,2) pass lp unfolding acc2_def lg1_def w2_def by blast
  then show ?thesis by (intro exI[of _ k])
qed

lemma lower_phase_index_error:
  assumes "m < acc" "\<not> (idx < length w \<and> length w \<le> length nums)"
  shows "\<exists>e. lower_phase orc m nums bb a d ((key, s, idx) # ls) w acc prev lg = Inl e"
proof (cases "idx < length w")
  case False
  then have "lower_loop orc m a d idx w acc prev lg = Inl IndexError"
    using assms(1) by (intro lower_loop_stop(2))
  then show ?thesis by simp
next
  case True
  then have nl: "\<not> length w \<le> length nums" using assms(2) by simp
  show ?thesis
  proof (cases "lower_loop orc m a d idx w acc prev lg")
    case (Inl e)
    then show ?thesis by simp
  next
    case (Inr r)
    obtain w1 acc1 prev1 lg1 where r: "r = (w1, acc1, prev1, lg1)" by (cases r) auto
    have l1: "length w1 = length w"
      using conjunct1[OF lower_loop_result[OF Inr[unfolded r]]] .
    show ?thesis using Inr r l1 True nl
      by (cases prev1) (simp_all add: py_index_def py_sum_products_def Let_def)
  qed
qed

lemma lower_phase_consistent:
  assumes "lower_phase orc m nums bb a d tuples w acc prev lg = Inr (bB, w2, acc2, lg2)"
    and "acc = orc (w, a, d)" and "\<forall>i<length w. 2 \<le> w ! i"
    and "prev = None \<or> (prev = Some acc \<and> m < acc)"
  shows "acc2 = orc (w2, a, d)"
  using assms
proof (induction tuples arbitrary: w acc prev lg)
  case Nil
  from Nil.prems(1) have "w2 = w" "acc2 = acc" by simp_all
  then show ?case using Nil.prems(2) by simp
next
  case (Cons l ls)
  obtain key s idx where l: "l = (key, s, idx)" by (cases l) auto
  note res = Cons.prems(1)[unfolded l]
  show ?case
  proof (cases "m < acc")
    case False
    then have pn: "prev = None" using Cons.prems(4) by blast
    have "lower_loop orc m a d idx w acc prev lg = Inr (w, acc, prev, lg)"
      using False by (rule lower_loop_stop(1))
    then have "\<exists>e. lower_phase orc m nums bb a d ((key, s, idx) # ls) w acc prev lg = Inl e"
      using pn by (simp add: py_index_def)
    then show ?thesis using res by auto
  next
    case True
    have ok: "idx < length w \<and> length w \<le> length nums"
    proof (rule ccontr)
      assume "\<not> (idx < length w \<and> length w \<le> length nums)"
      from lower_phase_index_error[OF True this, of orc bb a d key s ls prev lg] res
      show False by auto
    qed
    then have idx: "idx < length w" and len: "length w \<le> length nums" by simp_all
    have b: "1 < w ! idx" using Cons.prems(3) idx by fastforce
    from lower_phase_layer[OF True idx b len, of orc a d bb key s ls prev lg] obtain k where
      k: "1 \<le> k" "int k < w ! idx" "k = 1 \<or> m < orc (lowered w idx (k - 1), a, d)"
        "lower_phase orc m nums bb a d ((key, s, idx) # ls) w acc prev lg =
          (if real_of_int (\<Sum>i\<leftarrow>[0..<length w]. lowered w idx (k - 1) ! i * nums ! i) \<le> bb
           then Inr (False, lowered w idx (k - 1),
                     (if k = 1 then acc else orc (lowered w idx (k - 1), a, d)),
                     lg @ map (\<lambda>j. (lowered w idx j, a, d)) [1..<Suc k])
           else lower_phase orc m nums bb a d ls (lowered w idx (k - 1))
                  (if k = 1 then acc else orc (lowered w idx (k - 1), a, d))
                  (Some (if k = 1 then acc else orc (lowered w idx (k - 1), a, d)))
                  (lg @ map (\<lambda>j. (lowered w idx j, a, d)) [1..<Suc k]))"
      by blast
    define wn where "wn = lowered w idx (k - 1)"
    define accn where "accn = (if k = 1 then acc else orc (lowered w idx (k - 1), a, d))"
    have c1: "accn = orc (wn, a, d)"
    proof (cases "k = 1")
      case True
      then show ?thesis using Cons.prems(2) by (simp add: accn_def wn_def lowered_simps(1))
    next
      case False
      then show ?thesis by (simp add: accn_def wn_def)
    qed
    have c2: "\<forall>i<length wn. 2 \<le> wn ! i"
    proof (intro allI impI)
      fix i assume i: "i < length wn"
      then have iw: "i < length w" by (simp add: wn_def lowered_simps(2))
      show "2 \<le> wn ! i"
      proof (cases "i = idx")
        case True
        have "int (k - 1) = int k - 1" using k(1) by (simp add: of_nat_diff)
        then have "wn ! idx = w ! idx - int k + 1"
          using idx by (simp add: wn_def lowered_simps(3))
        then show ?thesis using True k(2) by simp
      next
        case False
        then have "wn ! i = w ! i" by (simp add: wn_def lowered_def)
        then show ?thesis using Cons.prems(3) iw by simp
      qed
    qed
    have c3: "m < accn" using k(3) True by (auto simp: accn_def)
    have eq: "(if real_of_int (\<Sum>i\<leftarrow>[0..<length w]. wn ! i * nums ! i) \<le> bb
           then Inr (False, wn, accn, lg @ map (\<lambda>j. (lowered w idx j, a, d)) [1..<Suc k])
           else lower_phase orc m nums bb a d ls wn accn (Some accn)
                  (lg @ map (\<lambda>j. (lowered w idx j, a, d)) [1..<Suc k]))
        = Inr (bB, w2, acc2, lg2)"
      using res k(4) unfolding wn_def accn_def by simp
    show ?thesis
    proof (cases "real_of_int (\<Sum>i\<leftarrow>[0..<length w]. wn ! i * nums ! i) \<le> bb")
      case True
      then have "w2 = wn" "acc2 = accn" using eq by simp_all
      then show ?thesis using c1 by simp
    next
      case False
      then have r: "lower_phase orc m nums bb a d ls wn accn (Some accn)
                  (lg @ map (\<lambda>j. (lowered w idx j, a, d)) [1..<Suc k])
            = Inr (bB, w2, acc2, lg2)" using eq by simp
      have "Some accn = None \<or> (Some accn = Some accn \<and> m < accn)" using c3 by simp
      from Cons.IH[OF r c1 c2 this] show ?thesis .
    qed
  qed
qed

lemma raise_loop_measured:
  assumes "raise_loop orc m a d acc w lg = Some (wr, accr, lg2)" "acc < m"
  shows "accr = orc (wr, a, d)"
proof -
  from raise_loop_result[OF assms(1)] obtain k where
    k: "fst (wr, accr, lg2) = map (\<lambda>b. b + int k) w" "m \<le> fst (snd (wr, accr, lg2))"
       "if k = 0 then fst (snd (wr, accr, lg2)) = acc \<and> snd (snd (wr, accr, lg2)) = lg
        else fst (snd (wr, accr, lg2)) = orc (fst (wr, accr, lg2), a, d) \<and> acc < m"
    by blast
  have "k \<noteq> 0"
  proof
    assume "k = 0"
    then have "accr = acc" using k(3) by simp
    then show False using k(2) assms(2) by simp
  qed
  then show ?thesis using k(3) by simp
qed

text \<open>
  Claim C4, as the code has it. Let the uniform Stage 2 candidate (\<open>b2\<close> bits on every
  layer) be below \<open>minimum_accuracy\<close>, let the raise phase return, and let the lower phase
  run through all its layers without the memory fitting the budget. Then the search
  returns exactly two configurations. The first is the Model-Memory configuration: the
  uniform \<open>b2\<close>-bit candidate with its measured accuracy (below the minimum); its memory
  fits the budget. The second is the configuration the lower phase ended with, with its
  accuracy (at least the minimum); its memory is over the budget. Both carry the
  activation and dynamic-routing bits of Stage 1 and their own memory-reduction factor,
  and the accuracy of each is the one the oracle measures on it.
\<close>

theorem two_models_returned:
  assumes "quantization_function_activations md" and "quantization_function_weights md"
    and s1: "step1 orc (leaf_children md) (step1_min_acc top_accuracy accuracy_tolerance) []
               = Some (Inr (r1, lg1))"
    and feas: "\<not> memory_budget * 8 * 2 ^ 20 < real (sum_list (map numel (leaf_children md)))"
    and pos: "0 < sum_list (map numel (leaf_children md))"
    and b2: "b2 = \<lfloor>memory_budget * 8 * 2 ^ 20 / real (sum_list (map numel (leaf_children md)))\<rfloor>"
    and w: "w = replicate (length (leaf_children md)) b2"
    and a: "a = replicate (length (leaf_children md)) (step1_bits r1)"
    and d: "d = replicate (length (filter routing (leaf_children md))) (step1_bits r1)"
    and nums: "nums = number_of_weights_inlayers (leaf_children md)"
    and below: "orc (w, a, d) < minimum_accuracy top_accuracy accuracy_tolerance"
    and raise: "raise_loop orc (minimum_accuracy top_accuracy accuracy_tolerance) a d
                  (orc (w, a, d)) w (lg1 @ [(w, a, d)]) = Some (wr, accr, lg2)"
    and lower: "lower_phase orc (minimum_accuracy top_accuracy accuracy_tolerance) nums
                  (memory_budget * 8 * 2 ^ 20) a d
                  (sqnr_tuples (weights_scale_factors_original md)) wr accr None lg2
                = Inr (True, w2, acc2, lg3)"
  shows "qcapsnets orc md top_accuracy accuracy_tolerance memory_budget
           = Some (Inr (Two_models
               \<lparr>weight_bits = w, act_bits = a, dr_bits = d, accuracy = orc (w, a, d),
                 wmem_reduction = real_of_int (int (tot_numer_of_weights md) * 32)
                    / real_of_int (\<Sum>i\<leftarrow>[0..<length nums]. nums ! i * w ! i)\<rparr>
               \<lparr>weight_bits = w2, act_bits = a, dr_bits = d, accuracy = acc2,
                 wmem_reduction = real_of_int (int (tot_numer_of_weights md) * 32)
                    / real_of_int (\<Sum>i\<leftarrow>[0..<length nums]. nums ! i * w2 ! i)\<rparr>,
               lg3 @ [(w2, a, d)]))
       \<and> real_of_int (\<Sum>i\<leftarrow>[0..<length nums]. nums ! i * w ! i) \<le> memory_budget * 8 * 2 ^ 20
       \<and> memory_budget * 8 * 2 ^ 20 < real_of_int (\<Sum>i\<leftarrow>[0..<length nums]. nums ! i * w2 ! i)
       \<and> minimum_accuracy top_accuracy accuracy_tolerance \<le> acc2
       \<and> acc2 = orc (w2, a, d)"
proof -
  let ?m = "minimum_accuracy top_accuracy accuracy_tolerance"
  let ?tuples = "sqnr_tuples (weights_scale_factors_original md)"
  let ?bb = "memory_budget * 8 * 2 ^ 20"
  define T where "T = real (sum_list (map numel (leaf_children md)))"
  note ff = feasible_facts[OF feas pos]
  have ln: "length nums = length (leaf_children md)" by (simp add: nums)
  have lw: "length w = length nums" by (simp add: w ln)
  have tot: "real_of_int (sum_list nums) = T" by (simp add: nums sum_list_nums T_def)
  have Tpos: "0 < T" unfolding T_def using pos by (rule iffD2[OF of_nat_0_less_iff])
  have b2pos: "1 \<le> b2" unfolding b2 by (rule ff(4))
  have wdef: "w = replicate (length a) \<lfloor>memory_budget_bits memory_budget / real_of_int (sum_list nums)\<rfloor>"
    unfolding nums ff(5) w b2 a by simp
  have bb: "memory_budget_bits memory_budget = ?bb" by (simp add: memory_budget_bits_def)
  \<comment> \<open>the Model-Memory configuration\<close>
  have sw: "(\<Sum>i\<leftarrow>[0..<length nums]. nums ! i * w ! i) = sum_list nums * b2"
    unfolding w ln[symmetric] by (rule sum_products_replicate)
  have b2le: "real_of_int b2 \<le> ?bb / T" unfolding b2 T_def by (rule of_int_floor_le)
  have b2gt: "?bb / T < real_of_int b2 + 1" unfolding b2 T_def by linarith
  have fits: "real_of_int (\<Sum>i\<leftarrow>[0..<length nums]. nums ! i * w ! i) \<le> ?bb"
  proof -
    have "real_of_int b2 * T \<le> ?bb" using b2le Tpos by (simp add: le_divide_eq)
    then show ?thesis unfolding sw by (simp add: tot mult.commute)
  qed
  have swpos: "(\<Sum>i\<leftarrow>[0..<length nums]. nums ! i * w ! i) \<noteq> 0"
  proof -
    have "sum_list nums \<noteq> 0" "b2 \<noteq> 0" using ff(2) b2pos unfolding nums by simp_all
    then show ?thesis unfolding sw by simp
  qed
  \<comment> \<open>the raise phase\<close>
  from raise_loop_triple[OF raise] obtain k where
    k: "wr = map (\<lambda>b. b + int k) w" "?m \<le> accr" "orc (w, a, d) < ?m \<longrightarrow> 0 < k"
    by blast
  have kpos: "0 < k" using k(3) below by simp
  have lwr: "length wr = length nums" by (simp add: k(1) lw)
  have wr1: "\<forall>i<length wr. 1 \<le> wr ! i" using b2pos by (simp add: k(1) w)
  have swr: "(\<Sum>i\<leftarrow>[0..<length nums]. nums ! i * wr ! i) = sum_list nums * (b2 + int k)"
  proof -
    have "wr = replicate (length nums) (b2 + int k)" by (simp add: k(1) w ln map_replicate)
    then show ?thesis by (simp only: sum_products_replicate)
  qed
  have over_wr: "?bb < real_of_int (\<Sum>i\<leftarrow>[0..<length nums]. nums ! i * wr ! i)"
  proof -
    have "?bb < (real_of_int b2 + 1) * T" using b2gt Tpos by (simp add: divide_less_eq)
    also have "\<dots> \<le> (real_of_int b2 + real k) * T" using kpos Tpos by simp
    finally show ?thesis unfolding swr by (simp add: tot mult.commute)
  qed
  \<comment> \<open>the lower phase\<close>
  note lp = lower_phase_result[OF lower]
  have l1: "length w2 = length wr" using conjunct1[OF lp] .
  have l2: "(\<forall>i<length wr. 1 \<le> wr ! i) \<longrightarrow> (\<forall>i<length w2. 1 \<le> w2 ! i)"
    using conjunct1[OF conjunct2[OF lp]] .
  have l3: "(\<forall>p. (None::real option) = Some p \<longrightarrow> ?m < p) \<and> ?tuples \<noteq> [] \<longrightarrow> ?m < acc2"
    using conjunct1[OF conjunct2[OF conjunct2[OF lp]]] .
  have l4: "True \<and> ?tuples \<noteq> [] \<longrightarrow> ?bb < real_of_int (\<Sum>i\<leftarrow>[0..<length w2]. w2 ! i * nums ! i)"
    using conjunct1[OF conjunct2[OF conjunct2[OF conjunct2[OF lp]]]] .
  have l6: "?tuples = [] \<longrightarrow> True \<and> w2 = wr \<and> acc2 = accr \<and> lg3 = lg2"
    using conjunct2[OF conjunct2[OF conjunct2[OF conjunct2[OF conjunct2[OF lp]]]]] .
  have lw2: "length w2 = length nums" using l1 lwr by simp
  have w21: "\<forall>i<length w2. 1 \<le> w2 ! i" using l2 wr1 by blast
  have comm: "(\<Sum>i\<leftarrow>[0..<length w2]. w2 ! i * nums ! i) = (\<Sum>i\<leftarrow>[0..<length nums]. nums ! i * w2 ! i)"
    by (rule sum_products_commute[OF lw2])
  have over: "?bb < real_of_int (\<Sum>i\<leftarrow>[0..<length nums]. nums ! i * w2 ! i)"
  proof (cases "?tuples = []")
    case True
    then have "w2 = wr" using l6 by simp
    then show ?thesis using over_wr by simp
  next
    case False
    then show ?thesis using l4 comm by simp
  qed
  have passing: "?m \<le> acc2"
  proof (cases "?tuples = []")
    case True
    then have "acc2 = accr" using l6 by simp
    then show ?thesis using k(2) by simp
  next
    case False
    then have "?m < acc2" using l3 by simp
    then show ?thesis by simp
  qed
  have sw2pos: "(\<Sum>i\<leftarrow>[0..<length nums]. nums ! i * w2 ! i) \<noteq> 0"
  proof -
    have "sum_list nums \<le> (\<Sum>i\<leftarrow>[0..<length nums]. nums ! i * w2 ! i)"
      by (rule sum_products_ge[OF lw2 w21]) (simp add: nums number_of_weights_inlayers_def)
    then show ?thesis using ff(3) unfolding nums by linarith
  qed
  have measured: "acc2 = orc (w2, a, d)"
  proof -
    have am: "accr = orc (wr, a, d)" by (rule raise_loop_measured[OF raise below])
    have wr2: "\<forall>i<length wr. 2 \<le> wr ! i" using b2pos kpos by (simp add: k(1) w)
    have pn: "(None::real option) = None \<or> ((None::real option) = Some accr \<and> ?m < accr)"
      by simp
    show ?thesis by (rule lower_phase_consistent[OF lower am wr2 pn])
  qed
  \<comment> \<open>the return\<close>
  have s2: "step2 orc ?m nums memory_budget ?tuples a a d lg1
      = Some (Inr (Step2_branchB w (orc (w, a, d)) w2 acc2, lg3))"
    unfolding step2_raise_lower[OF ff(1,2)[folded nums] wdef below raise] bb lower by simp
  have ret: "branchB_return orc (int (tot_numer_of_weights md) * 32) nums a d w (orc (w, a, d))
       w2 acc2 lg3
     = Inr (Two_models
               \<lparr>weight_bits = w, act_bits = a, dr_bits = d, accuracy = orc (w, a, d),
                 wmem_reduction = real_of_int (int (tot_numer_of_weights md) * 32)
                    / real_of_int (\<Sum>i\<leftarrow>[0..<length nums]. nums ! i * w ! i)\<rparr>
               \<lparr>weight_bits = w2, act_bits = a, dr_bits = d, accuracy = acc2,
                 wmem_reduction = real_of_int (int (tot_numer_of_weights md) * 32)
                    / real_of_int (\<Sum>i\<leftarrow>[0..<length nums]. nums ! i * w2 ! i)\<rparr>,
               lg3 @ [(w2, a, d)])"
    unfolding branchB_return_def wmem_reduction_of_ok[OF lw swpos]
      wmem_reduction_of_ok[OF lw2 sw2pos]
    by (simp add: quantized_test_def)
  have "qcapsnets orc md top_accuracy accuracy_tolerance memory_budget
      = Some (branchB_return orc (int (tot_numer_of_weights md) * 32) nums a d w (orc (w, a, d))
          w2 acc2 lg3)"
    unfolding qcapsnets_after_step1[OF assms(1,2) s1] a[symmetric] d[symmetric] nums[symmetric]
    by (simp add: s2)
  then show ?thesis unfolding ret using fits over passing measured by simp
qed

theorem two_models_returned_witness:
  "qcapsnets two_layer_oracle two_layer_model 80 20 (25 / 1048576)
     = Some (Inr (Two_models
         \<lparr>weight_bits = [1, 1], act_bits = [13, 13], dr_bits = [13], accuracy = 123 / 2,
           wmem_reduction = 32\<rparr>
         \<lparr>weight_bits = [2, 3], act_bits = [13, 13], dr_bits = [13], accuracy = 257 / 4,
           wmem_reduction = 64 / 5\<rparr>,
         [([32, 32], [32, 32], [32]), ([16, 16], [16, 16], [16]),
          ([8, 8], [8, 8], [8]), ([12, 12], [12, 12], [12]),
          ([14, 14], [14, 14], [14]), ([13, 13], [13, 13], [13]),
          ([1, 1], [13, 13], [13]), ([2, 2], [13, 13], [13]), ([3, 3], [13, 13], [13]),
          ([2, 3], [13, 13], [13]), ([1, 3], [13, 13], [13]), ([2, 2], [13, 13], [13]),
          ([2, 3], [13, 13], [13])]))"
proof -
  have h1: "quantization_function_activations two_layer_model"
    and h2: "quantization_function_weights two_layer_model"
    by (simp_all add: two_layer_model_def)
  have feas: "\<not> (25 / 1048576) * 8 * 2 ^ 20
      < real (sum_list (map numel (leaf_children two_layer_model)))"
    by (simp add: two_layer_model_def)
  have pos: "0 < sum_list (map numel (leaf_children two_layer_model))"
    by (simp add: two_layer_model_def)
  have b2: "(1::int) = \<lfloor>(25 / 1048576) * 8 * 2 ^ 20
      / real (sum_list (map numel (leaf_children two_layer_model)))\<rfloor>"
    by (simp add: two_layer_model_def)
  have w: "[1, 1] = replicate (length (leaf_children two_layer_model)) (1::int)"
    by (simp add: two_layer_model_def)
  have a: "[13, 13] = replicate (length (leaf_children two_layer_model))
      (step1_bits \<lparr>step1_bits = 13, step1_acc = 159 / 2,
                  step1_bit_search = [32, 16, 8, 12, 14, 13],
                  step1_acc_list = [108, 84, 72, 78, 81, 159 / 2],
                  step1_bit_search_sat = [True, True, False, False, True, True]\<rparr>)"
    by (simp add: two_layer_model_def)
  have d: "[13] = replicate (length (filter routing (leaf_children two_layer_model)))
      (step1_bits \<lparr>step1_bits = 13, step1_acc = 159 / 2,
                  step1_bit_search = [32, 16, 8, 12, 14, 13],
                  step1_acc_list = [108, 84, 72, 78, 81, 159 / 2],
                  step1_bit_search_sat = [True, True, False, False, True, True]\<rparr>)"
    by (simp add: two_layer_model_def routing_def)
  have below: "two_layer_oracle ([1, 1], [13, 13], [13]) < minimum_accuracy 80 20"
    by (simp add: minimum_accuracy_def two_layer_oracle_def)
  from two_models_returned[OF h1 h2 two_layer_step1_80 feas pos b2 w a d refl below
      two_layer_raise_80 two_layer_lower_80]
  show ?thesis
    by (simp add: two_layer_model_def two_layer_oracle_def number_of_weights_inlayers_def)
qed

text \<open>
  The claim as stated fails on the example: the raise phase reaches the weights
  \<open>[3, 3]\<close>, and the two configurations returned have the weights \<open>[1, 1]\<close> (the uniform
  Model-Memory candidate) and \<open>[2, 3]\<close> (the end of the lower phase).
\<close>

theorem two_models_counterexample:
  "raise_loop two_layer_oracle (minimum_accuracy 80 20) [13, 13] [13] (123 / 2) [1, 1]
       [([32, 32], [32, 32], [32]), ([16, 16], [16, 16], [16]),
        ([8, 8], [8, 8], [8]), ([12, 12], [12, 12], [12]),
        ([14, 14], [14, 14], [14]), ([13, 13], [13, 13], [13]), ([1, 1], [13, 13], [13])]
     = Some ([3, 3], 129 / 2,
         [([32, 32], [32, 32], [32]), ([16, 16], [16, 16], [16]),
          ([8, 8], [8, 8], [8]), ([12, 12], [12, 12], [12]),
          ([14, 14], [14, 14], [14]), ([13, 13], [13, 13], [13]),
          ([1, 1], [13, 13], [13]), ([2, 2], [13, 13], [13]), ([3, 3], [13, 13], [13])])
   \<and> qcapsnets two_layer_oracle two_layer_model 80 20 (25 / 1048576)
     = Some (Inr (Two_models
         \<lparr>weight_bits = [1, 1], act_bits = [13, 13], dr_bits = [13], accuracy = 123 / 2,
           wmem_reduction = 32\<rparr>
         \<lparr>weight_bits = [2, 3], act_bits = [13, 13], dr_bits = [13], accuracy = 257 / 4,
           wmem_reduction = 64 / 5\<rparr>,
         [([32, 32], [32, 32], [32]), ([16, 16], [16, 16], [16]),
          ([8, 8], [8, 8], [8]), ([12, 12], [12, 12], [12]),
          ([14, 14], [14, 14], [14]), ([13, 13], [13, 13], [13]),
          ([1, 1], [13, 13], [13]), ([2, 2], [13, 13], [13]), ([3, 3], [13, 13], [13]),
          ([2, 3], [13, 13], [13]), ([1, 3], [13, 13], [13]), ([2, 2], [13, 13], [13]),
          ([2, 3], [13, 13], [13])]))"
  by (simp add: two_layer_eval)

section \<open>Stage 3A: one group of activations\<close>

lemma lowered_group_simps:
  "lowered_group act grp 0 = act"
  "length (lowered_group act grp j) = length act"
  "i < length act \<Longrightarrow>
     lowered_group act grp j ! i = (if i \<in> set grp then act ! i - int j else act ! i)"
proof -
  show "lowered_group act grp 0 = act"
    by (rule nth_equalityI) (simp_all add: lowered_group_def)
qed (simp_all add: lowered_group_def)

lemma lowered_group_Nil: "lowered_group act [] j = act"
  by (rule nth_equalityI) (simp_all add: lowered_group_def)

lemma lowered_group_twice:
  "lowered_group (lowered_group act grp 1) grp j = lowered_group act grp (Suc j)"
  by (rule nth_equalityI) (simp_all add: lowered_group_simps)

lemma group_decrement_lowered:
  assumes "distinct grp" "\<forall>i\<in>set grp. i < length act"
  shows "group_decrement act grp c =
           Inr (lowered_group act grp 1, if grp = [] then c else act ! last grp - 1)"
  using assms
proof (induction grp arbitrary: act c)
  case Nil
  then show ?case by (simp add: lowered_group_Nil)
next
  case (Cons i rest)
  let ?act1 = "act[i := act ! i - 1]"
  have i: "i < length act" "i \<notin> set rest" using Cons.prems by simp_all
  have d: "distinct rest" "\<forall>x\<in>set rest. x < length ?act1" using Cons.prems by simp_all
  have eq: "lowered_group ?act1 rest 1 = lowered_group act (i # rest) 1"
    using i by (intro nth_equalityI) (auto simp: lowered_group_simps nth_list_update)
  have lst: "rest \<noteq> [] \<Longrightarrow> ?act1 ! last rest = act ! last rest"
  proof -
    assume "rest \<noteq> []"
    then have "last rest \<in> set rest" by simp
    then have "last rest \<noteq> i" using i(2) by auto
    then show ?thesis by simp
  qed
  show ?case
    using i(1) Cons.IH[OF d, of "act ! i - 1"] eq lst
    by (simp add: py_index_def)
qed

lemma group_increment_lowered:
  assumes "distinct grp" "\<forall>i\<in>set grp. i < length act"
  shows "group_increment (lowered_group act grp (Suc j)) grp = Inr (lowered_group act grp j)"
proof -
  have g: "group_increment b grp =
      Inr (map (\<lambda>i. if i \<in> set grp then b ! i + 1 else b ! i) [0..<length b])"
    if "distinct grp" "\<forall>i\<in>set grp. i < length b" for b
    using that
  proof (induction grp arbitrary: b)
    case Nil
    then show ?case by (simp add: map_nth)
  next
    case (Cons i rest)
    let ?b1 = "b[i := b ! i + 1]"
    have i: "i < length b" "i \<notin> set rest" using Cons.prems by simp_all
    have d: "distinct rest" "\<forall>x\<in>set rest. x < length ?b1" using Cons.prems by simp_all
    have "map (\<lambda>x. if x \<in> set rest then ?b1 ! x + 1 else ?b1 ! x) [0..<length ?b1]
        = map (\<lambda>x. if x \<in> set (i # rest) then b ! x + 1 else b ! x) [0..<length b]"
      using i by (intro nth_equalityI) (auto simp: nth_list_update)
    then show ?case using i(1) Cons.IH[OF d] by (simp add: py_index_def)
  qed
  have "\<forall>i\<in>set grp. i < length (lowered_group act grp (Suc j))"
    using assms(2) by (simp add: lowered_group_simps)
  from g[OF assms(1) this] show ?thesis
    by (simp add: lowered_group_simps) (rule nth_equalityI, simp_all add: lowered_group_simps)
qed


lemma step3a_loop_stop:
  "m \<le> acc \<Longrightarrow> c < 3 \<Longrightarrow>
     step3a_loop orc w d grp m act c acc prev lg = Some (Inr (act, acc, prev, lg))"
  "\<not> m \<le> acc \<Longrightarrow> group_increment act grp = Inr act1 \<Longrightarrow>
     step3a_loop orc w d grp m act c acc (Some p) lg = Some (Inr (act1, p, Some p, lg))"
  by (subst step3a_loop.simps, simp)+

lemma step3a_loop_step:
  "m \<le> acc \<Longrightarrow> \<not> c < 3 \<Longrightarrow> group_decrement act grp c = Inr (act1, c1) \<Longrightarrow>
     step3a_loop orc w d grp m act c acc prev lg =
     step3a_loop orc w d grp m act1 c1 (orc (w, act1, d)) (Some acc) (lg @ [(w, act1, d)])"
  by (subst step3a_loop.simps) (simp add: quantized_test_def)

lemma step3a_loop_runs:
  assumes "distinct grp" "\<forall>i\<in>set grp. i < length act" "grp \<noteq> []"
    and "\<forall>i\<in>set grp. act ! i = c" and "m \<le> acc"
  shows "\<exists>k. (\<forall>j<k. 3 \<le> c - int j)
      \<and> (\<forall>j. 1 \<le> j \<and> j < k \<longrightarrow> m \<le> orc (w, lowered_group act grp j, d))
      \<and> (k = 0 \<or> m \<le> orc (w, lowered_group act grp k, d) \<longrightarrow> c - int k < 3)
      \<and> step3a_loop orc w d grp m act c acc prev lg =
           Some (Inr (if k = 0 then (act, acc, prev, lg)
                      else if m \<le> orc (w, lowered_group act grp k, d)
                      then (lowered_group act grp k, orc (w, lowered_group act grp k, d),
                            Some (if k = 1 then acc else orc (w, lowered_group act grp (k - 1), d)),
                            lg @ map (\<lambda>j. (w, lowered_group act grp j, d)) [1..<Suc k])
                      else (lowered_group act grp (k - 1),
                            (if k = 1 then acc else orc (w, lowered_group act grp (k - 1), d)),
                            Some (if k = 1 then acc else orc (w, lowered_group act grp (k - 1), d)),
                            lg @ map (\<lambda>j. (w, lowered_group act grp j, d)) [1..<Suc k])))"
  using assms
proof (induction "nat c" arbitrary: act c acc prev lg rule: less_induct)
  case less
  note dg = less.prems(1) and rg = less.prems(2) and ne = less.prems(3)
    and eqc = less.prems(4) and pass = less.prems(5)
  let ?A = "\<lambda>j. lowered_group act grp j"
  let ?V = "\<lambda>j. orc (w, lowered_group act grp j, d)"
  show ?case
  proof (cases "c < 3")
    case True
    have "step3a_loop orc w d grp m act c acc prev lg = Some (Inr (act, acc, prev, lg))"
      using pass True by (rule step3a_loop_stop(1))
    then show ?thesis using True by (intro exI[of _ 0]) simp
  next
    case False
    have lastc: "act ! last grp = c" using eqc ne by simp
    have gd: "group_decrement act grp c = Inr (?A 1, c - 1)"
      using group_decrement_lowered[OF dg rg, of c] ne lastc by simp
    have step: "step3a_loop orc w d grp m act c acc prev lg =
        step3a_loop orc w d grp m (?A 1) (c - 1) (?V 1) (Some acc) (lg @ [(w, ?A 1, d)])"
      using pass False gd by (rule step3a_loop_step)
    show ?thesis
    proof (cases "m \<le> ?V 1")
      case f: False
      have gi: "group_increment (?A 1) grp = Inr act"
        using group_increment_lowered[OF dg rg, of 0] by (simp add: lowered_group_simps(1))
      have "step3a_loop orc w d grp m (?A 1) (c - 1) (?V 1) (Some acc) (lg @ [(w, ?A 1, d)])
          = Some (Inr (act, acc, Some acc, lg @ [(w, ?A 1, d)]))"
        using f gi by (rule step3a_loop_stop(2))
      then have r: "step3a_loop orc w d grp m act c acc prev lg
          = Some (Inr (act, acc, Some acc, lg @ [(w, ?A 1, d)]))"
        using step by simp
      show ?thesis using False f r
        by (intro exI[of _ 1]) (simp add: lowered_group_simps(1))
    next
      case t: True
      have lt: "nat (c - 1) < nat c" using False by simp
      have rg1: "\<forall>i\<in>set grp. i < length (?A 1)" using rg by (simp add: lowered_group_simps)
      have eq1: "\<forall>i\<in>set grp. ?A 1 ! i = c - 1" using rg eqc by (simp add: lowered_group_simps)
      from less.hyps[OF lt dg rg1 ne eq1 t, of "Some acc" "lg @ [(w, ?A 1, d)]"]
      obtain k where k: "\<forall>j<k. 3 \<le> c - 1 - int j"
        "\<forall>j. 1 \<le> j \<and> j < k \<longrightarrow> m \<le> orc (w, lowered_group (?A 1) grp j, d)"
        "k = 0 \<or> m \<le> orc (w, lowered_group (?A 1) grp k, d) \<longrightarrow> c - 1 - int k < 3"
        "step3a_loop orc w d grp m (?A 1) (c - 1) (?V 1) (Some acc) (lg @ [(w, ?A 1, d)]) =
           Some (Inr (if k = 0 then (?A 1, ?V 1, Some acc, lg @ [(w, ?A 1, d)])
                      else if m \<le> orc (w, lowered_group (?A 1) grp k, d)
                      then (lowered_group (?A 1) grp k, orc (w, lowered_group (?A 1) grp k, d),
                            Some (if k = 1 then ?V 1
                                  else orc (w, lowered_group (?A 1) grp (k - 1), d)),
                            (lg @ [(w, ?A 1, d)])
                              @ map (\<lambda>j. (w, lowered_group (?A 1) grp j, d)) [1..<Suc k])
                      else (lowered_group (?A 1) grp (k - 1),
                            (if k = 1 then ?V 1
                             else orc (w, lowered_group (?A 1) grp (k - 1), d)),
                            Some (if k = 1 then ?V 1
                                  else orc (w, lowered_group (?A 1) grp (k - 1), d)),
                            (lg @ [(w, ?A 1, d)])
                              @ map (\<lambda>j. (w, lowered_group (?A 1) grp j, d)) [1..<Suc k])))"
        by blast
      note sh = lowered_group_twice[of act grp]
      have c1: "\<forall>j<Suc k. 3 \<le> c - int j"
      proof (intro allI impI)
        fix j assume j: "j < Suc k"
        show "3 \<le> c - int j"
        proof (cases j)
          case 0
          then show ?thesis using False by simp
        next
          case (Suc j')
          then have "3 \<le> c - 1 - int j'" using k(1) j by simp
          then show ?thesis using Suc by simp
        qed
      qed
      have c2: "\<forall>j. 1 \<le> j \<and> j < Suc k \<longrightarrow> m \<le> ?V j"
      proof (intro allI impI)
        fix j assume j: "1 \<le> j \<and> j < Suc k"
        show "m \<le> ?V j"
        proof (cases "j = 1")
          case True
          then show ?thesis using t by simp
        next
          case False
          then obtain j' where j': "j = Suc j'" "1 \<le> j'" "j' < k" using j by (cases j) auto
          then have "m \<le> orc (w, lowered_group (?A 1) grp j', d)" using k(2) by simp
          then show ?thesis unfolding sh j'(1) .
        qed
      qed
      have c3: "Suc k = 0 \<or> m \<le> ?V (Suc k) \<longrightarrow> c - int (Suc k) < 3"
      proof
        assume a: "Suc k = 0 \<or> m \<le> ?V (Suc k)"
        have "k = 0 \<or> m \<le> orc (w, lowered_group (?A 1) grp k, d)"
          using a unfolding sh by simp
        then have "c - 1 - int k < 3" using k(3) by blast
        then show "c - int (Suc k) < 3" by simp
      qed
      have lgs: "(lg @ [(w, ?A 1, d)]) @ map (\<lambda>j. (w, lowered_group (?A 1) grp j, d)) [1..<Suc k]
          = lg @ map (\<lambda>j. (w, ?A j, d)) [1..<Suc (Suc k)]"
        unfolding map_upt_shift[of "\<lambda>j. (w, ?A j, d)" k] sh by simp
      have pv: "(if k = 1 then ?V 1 else orc (w, lowered_group (?A 1) grp (k - 1), d))
          = ?V k" if nz: "k \<noteq> 0"
      proof (cases "k = 1")
        case True
        then show ?thesis by simp
      next
        case False
        obtain k' where k': "k = Suc k'" using nz by (cases k) auto
        have "lowered_group (?A 1) grp k' = ?A (Suc k')" by (rule sh)
        then show ?thesis using False unfolding k' by simp
      qed
      have c4: "step3a_loop orc w d grp m act c acc prev lg =
           Some (Inr (if Suc k = 0 then (act, acc, prev, lg)
                      else if m \<le> ?V (Suc k)
                      then (?A (Suc k), ?V (Suc k),
                            Some (if Suc k = 1 then acc else ?V (Suc k - 1)),
                            lg @ map (\<lambda>j. (w, ?A j, d)) [1..<Suc (Suc k)])
                      else (?A (Suc k - 1),
                            (if Suc k = 1 then acc else ?V (Suc k - 1)),
                            Some (if Suc k = 1 then acc else ?V (Suc k - 1)),
                            lg @ map (\<lambda>j. (w, ?A j, d)) [1..<Suc (Suc k)])))"
      proof (cases "k = 0")
        case True
        have "step3a_loop orc w d grp m act c acc prev lg
            = Some (Inr (?A 1, ?V 1, Some acc, lg @ [(w, ?A 1, d)]))"
          unfolding step k(4) using True by simp
        then show ?thesis using True t by simp
      next
        case False
        have km: "lowered_group (?A 1) grp (k - 1) = ?A k"
        proof -
          obtain k' where k': "k = Suc k'" using False by (cases k) auto
          show ?thesis unfolding k' using sh[of k'] by simp
        qed
        have "step3a_loop orc w d grp m act c acc prev lg
            = Some (Inr (if m \<le> ?V (Suc k)
                      then (?A (Suc k), ?V (Suc k), Some (?V k),
                            lg @ map (\<lambda>j. (w, ?A j, d)) [1..<Suc (Suc k)])
                      else (?A k, ?V k, Some (?V k),
                            lg @ map (\<lambda>j. (w, ?A j, d)) [1..<Suc (Suc k)])))"
          unfolding step k(4) pv[OF False] lgs km unfolding sh using False by simp
        then show ?thesis using False by simp
      qed
      show ?thesis using c1 c2 c3 c4 by (intro exI[of _ "Suc k"] conjI)
    qed
  qed
qed



lemma upt_join: "i \<le> j \<Longrightarrow> j \<le> k \<Longrightarrow> [i..<j] @ [j..<k] = [i..<k]"
  by (metis le_Suc_ex upt_add_eq_append)

lemma act_groups_concat:
  "concat (act_sqnr_grouped_index info) = map (\<lambda>tup. snd (snd tup)) (act_sqnr_sorted info)"
proof -
  define xs where "xs = act_sqnr_sorted info"
  define f where "f = (\<lambda>i. snd (snd (xs ! i)))"
  have all: "map f [0..<length xs] = map (\<lambda>tup. snd (snd tup)) xs"
    unfolding f_def by (rule nth_equalityI) simp_all
  show ?thesis
  proof (cases "4 < length xs")
    case True
    define g where "g = length xs div 4"
    have le: "g \<le> 2 * g" "2 * g \<le> 3 * g" "3 * g \<le> length xs" unfolding g_def by simp_all
    have "concat (act_sqnr_grouped_index info)
        = map f ([0..<g] @ [g..<2 * g] @ [2 * g..<3 * g] @ [3 * g..<length xs])"
      using True unfolding act_sqnr_grouped_index_def xs_def[symmetric] Let_def g_def f_def
      by simp
    also have "\<dots> = map f [0..<length xs]"
      using le by (simp add: upt_join)
    finally show ?thesis using all by (simp add: xs_def)
  next
    case False
    have "concat (act_sqnr_grouped_index info) = concat (map (\<lambda>i. [f i]) [0..<length xs])"
      using False unfolding act_sqnr_grouped_index_def xs_def[symmetric] Let_def f_def
      by simp
    also have "\<dots> = map f [0..<length xs]" by (rule concat_map_singleton)
    finally show ?thesis using all by (simp add: xs_def)
  qed
qed

lemma step3a_budget:
  assumes "groups \<noteq> []" "act0 \<noteq> []"
  shows "step3a orc min_acc groups w act0 d acc2 lg0 =
      step3a_groups orc w d (act0 ! 0) ((acc2 - min_acc) * 55 / 100 / real (length groups))
        groups acc2 act0 acc2 None lg0"
proof -
  have a: "real (length groups) \<noteq> 0" using assms(1) by simp
  have b: "0 < length act0" using assms(2) by simp
  show ?thesis unfolding step3a_def Let_def py_truediv_def py_index_def
    by (simp only: a b if_False if_True sum.case)
qed




section \<open>Bounds on the bit-widths returned\<close>

lemma uniform_candidate_bits:
  assumes "\<not> bb < real_of_int S" "S \<noteq> 0" "0 \<le> S"
  shows "1 \<le> \<lfloor>bb / real_of_int S\<rfloor>"
proof -
  have p: "0 < real_of_int S" using assms(2,3) by simp
  have "real_of_int S \<le> bb" using assms(1) by simp
  then have "1 \<le> bb / real_of_int S" using p by (simp add: le_divide_eq)
  then show ?thesis by linarith
qed

lemma step2_result_bounds:
  assumes s2: "step2 orc m nums budget tuples w1 a d lg = Some (Inr (res, lg'))"
    and nn: "\<forall>x\<in>set nums. 0 \<le> x"
  shows "case res of
           Step2_error mb \<Rightarrow> True
         | Step2_branchB mw macc w2 acc2 \<Rightarrow> (\<forall>x\<in>set mw. 1 \<le> x) \<and> (\<forall>x\<in>set w2. 1 \<le> x)
         | Step2_satisfied w2 acc2 \<Rightarrow> (\<forall>x\<in>set w2. 1 \<le> x) \<and> m \<le> acc2"
proof (cases "memory_budget_bits budget < real_of_int (sum_list nums)")
  case True
  then show ?thesis using s2 by (auto simp: step2_error_value)
next
  case feas: False
  have S0: "0 \<le> sum_list nums" using nn by (intro sum_list_nonneg) simp
  have Sne: "sum_list nums \<noteq> 0"
  proof
    assume "sum_list nums = 0"
    then show False using s2 feas by (simp add: step2_def Let_def)
  qed
  define W where "W = replicate (length w1) \<lfloor>memory_budget_bits budget / real_of_int (sum_list nums)\<rfloor>"
  have W1: "\<forall>x\<in>set W. 1 \<le> x"
    using uniform_candidate_bits[OF feas Sne S0] by (simp add: W_def)
  note eq = s2[unfolded step2_feasible[OF feas Sne] Let_def, folded W_def]
  show ?thesis
  proof (cases "m \<le> orc (W, a, d)")
    case True
    then show ?thesis using eq W1 by auto
  next
    case below: False
    show ?thesis
    proof (cases "raise_loop orc m a d (orc (W, a, d)) W (lg @ [(W, a, d)])")
      case None
      then show ?thesis using eq below by simp
    next
      case (Some y)
      obtain wr accr lg2 where y: "y = (wr, accr, lg2)" by (cases y) auto
      from raise_loop_result[OF Some] obtain k where "fst y = map (\<lambda>b. b + int k) W" by blast
      then have wr: "wr = map (\<lambda>b. b + int k) W" by (simp add: y)
      have wr1: "\<forall>i<length wr. 1 \<le> wr ! i"
      proof (intro allI impI)
        fix i assume "i < length wr"
        then have i: "i < length W" by (simp add: wr)
        then have "1 \<le> W ! i" using W1 by simp
        then show "1 \<le> wr ! i" using i by (simp add: wr)
      qed
      show ?thesis
      proof (cases "lower_phase orc m nums (memory_budget_bits budget) a d tuples wr accr None lg2")
        case (Inl e)
        then show ?thesis using eq below Some y by simp
      next
        case (Inr r)
        obtain bB w2 acc2 lg3 where r: "r = (bB, w2, acc2, lg3)" by (cases r) auto
        note lp = lower_phase_result[OF Inr[unfolded r]]
        have l2: "(\<forall>i<length wr. 1 \<le> wr ! i) \<longrightarrow> (\<forall>i<length w2. 1 \<le> w2 ! i)"
          using conjunct1[OF conjunct2[OF lp]] .
        have l3: "(\<forall>p. (None::real option) = Some p \<longrightarrow> m < p) \<and> tuples \<noteq> [] \<longrightarrow> m < acc2"
          using conjunct1[OF conjunct2[OF conjunct2[OF lp]]] .
        have l6: "tuples = [] \<longrightarrow> bB"
          using conjunct2[OF conjunct2[OF conjunct2[OF conjunct2[OF conjunct2[OF lp]]]]] by blast
        have w21: "\<forall>x\<in>set w2. 1 \<le> x" using l2 wr1 by (auto simp: in_set_conv_nth)
        show ?thesis
        proof (cases bB)
          case True
          then have "res = Step2_branchB W (orc (W, a, d)) w2 acc2"
            using eq below Some y Inr r by simp
          then show ?thesis using W1 w21 by simp
        next
          case False
          then have res: "res = Step2_satisfied w2 acc2"
            using eq below Some y Inr r by simp
          have "tuples \<noteq> []" using l6 False by blast
          then have "m < acc2" using l3 by simp
          then show ?thesis using res w21 by simp
        qed
      qed
    qed
  qed
qed


lemma group_decrement_index_error:
  "\<not> (\<forall>i\<in>set grp. i < length act) \<Longrightarrow> \<exists>e. group_decrement act grp c = Inl e"
proof (induction grp arbitrary: act c)
  case Nil
  then show ?case by simp
next
  case (Cons i rest)
  show ?case
  proof (cases "i < length act")
    case False
    then show ?thesis by (simp add: py_index_def)
  next
    case True
    then have "\<not> (\<forall>x\<in>set rest. x < length (act[i := act ! i - 1]))"
      using Cons.prems by simp
    from Cons.IH[OF this, of "act ! i - 1"] show ?thesis using True by (simp add: py_index_def)
  qed
qed

lemma step3a_loop_index_error:
  assumes "m \<le> acc" "\<not> c < 3" "\<not> (\<forall>i\<in>set grp. i < length act)"
  shows "\<exists>e. step3a_loop orc w d grp m act c acc prev lg = Some (Inl e)"
proof -
  from group_decrement_index_error[OF assms(3), of c] obtain e where
    "group_decrement act grp c = Inl e" by blast
  then have "step3a_loop orc w d grp m act c acc prev lg = Some (Inl e)"
    using assms(1,2) by (subst step3a_loop.simps) simp
  then show ?thesis by blast
qed

lemma step3a_loop_summary:
  assumes dg: "distinct grp" and rg: "\<forall>i\<in>set grp. i < length act" and ne: "grp \<noteq> []"
    and eqc: "\<forall>i\<in>set grp. act ! i = c" and pass: "m \<le> acc" and c3: "3 \<le> c"
  shows "\<exists>k acc' prev' lg'. step3a_loop orc w d grp m act c acc prev lg
             = Some (Inr (lowered_group act grp k, acc', prev', lg'))
           \<and> 2 \<le> c - int k \<and> m \<le> acc'"
proof -
  from step3a_loop_runs[OF dg rg ne eqc pass, of orc w d prev lg] obtain k where
    k: "\<forall>j<k. 3 \<le> c - int j"
      "\<forall>j. 1 \<le> j \<and> j < k \<longrightarrow> m \<le> orc (w, lowered_group act grp j, d)"
      "k = 0 \<or> m \<le> orc (w, lowered_group act grp k, d) \<longrightarrow> c - int k < 3"
      "step3a_loop orc w d grp m act c acc prev lg =
           Some (Inr (if k = 0 then (act, acc, prev, lg)
                      else if m \<le> orc (w, lowered_group act grp k, d)
                      then (lowered_group act grp k, orc (w, lowered_group act grp k, d),
                            Some (if k = 1 then acc else orc (w, lowered_group act grp (k - 1), d)),
                            lg @ map (\<lambda>j. (w, lowered_group act grp j, d)) [1..<Suc k])
                      else (lowered_group act grp (k - 1),
                            (if k = 1 then acc else orc (w, lowered_group act grp (k - 1), d)),
                            Some (if k = 1 then acc else orc (w, lowered_group act grp (k - 1), d)),
                            lg @ map (\<lambda>j. (w, lowered_group act grp j, d)) [1..<Suc k])))"
    by blast
  have kpos: "k \<noteq> 0" using k(3) c3 by auto
  then have km: "k - 1 < k" by simp
  have ik: "int (k - 1) = int k - 1" using kpos by (simp add: of_nat_diff)
  have b3: "3 \<le> c - int (k - 1)" using k(1) km by blast
  show ?thesis
  proof (cases "m \<le> orc (w, lowered_group act grp k, d)")
    case True
    have "step3a_loop orc w d grp m act c acc prev lg =
        Some (Inr (lowered_group act grp k, orc (w, lowered_group act grp k, d),
               Some (if k = 1 then acc else orc (w, lowered_group act grp (k - 1), d)),
               lg @ map (\<lambda>j. (w, lowered_group act grp j, d)) [1..<Suc k]))"
      unfolding k(4) using kpos True by simp
    moreover have "2 \<le> c - int k" using b3 ik by simp
    ultimately show ?thesis using True by blast
  next
    case False
    define p where "p = (if k = 1 then acc else orc (w, lowered_group act grp (k - 1), d))"
    have "step3a_loop orc w d grp m act c acc prev lg =
        Some (Inr (lowered_group act grp (k - 1), p, Some p,
               lg @ map (\<lambda>j. (w, lowered_group act grp j, d)) [1..<Suc k]))"
      unfolding k(4) p_def using kpos False by simp
    moreover have "2 \<le> c - int (k - 1)" using b3 by simp
    moreover have "m \<le> p"
    proof (cases "k = 1")
      case True
      then show ?thesis using pass by (simp add: p_def)
    next
      case False
      then have "1 \<le> k - 1 \<and> k - 1 < k" using kpos by simp
      then have "m \<le> orc (w, lowered_group act grp (k - 1), d)" using k(2) by blast
      then show ?thesis using False by (simp add: p_def)
    qed
    ultimately show ?thesis by blast
  qed
qed

lemma lowered_group_bounds:
  assumes "\<forall>x\<in>set act. lo \<le> x \<and> x \<le> b1" and "\<forall>i\<in>set grp. i < length act \<longrightarrow> act ! i = b1"
    and "lo \<le> b1 - int k"
  shows "\<forall>x\<in>set (lowered_group act grp k). lo \<le> x \<and> x \<le> b1"
proof
  fix x assume "x \<in> set (lowered_group act grp k)"
  then obtain i where i: "i < length act" "x = lowered_group act grp k ! i"
    by (auto simp: in_set_conv_nth lowered_group_simps(2))
  show "lo \<le> x \<and> x \<le> b1"
  proof (cases "i \<in> set grp")
    case True
    then have "x = b1 - int k" using i assms(2) by (simp add: lowered_group_simps(3))
    then show ?thesis using assms(3) by simp
  next
    case False
    then have "x = act ! i" using i by (simp add: lowered_group_simps(3))
    then show ?thesis using assms(1) i(1) by simp
  qed
qed

lemma step3a_groups_bounds:
  assumes "step3a_groups orc w d b1 per_step gs fl act acc prev lg = Some (Inr (act3, acc3, lg3))"
    and "distinct (concat gs)" and "\<forall>g\<in>set gs. g \<noteq> []" and "0 \<le> per_step" and "fl \<le> acc"
    and "\<forall>i\<in>set (concat gs). i < length act \<longrightarrow> act ! i = b1"
    and "\<forall>x\<in>set act. min 2 b1 \<le> x \<and> x \<le> b1"
  shows "length act3 = length act \<and> (\<forall>x\<in>set act3. min 2 b1 \<le> x \<and> x \<le> b1)
     \<and> fl - real (length gs) * per_step \<le> acc3"
  using assms
proof (induction gs arbitrary: fl act acc prev lg)
  case Nil
  then show ?case by simp
next
  case (Cons grp rest)
  let ?m = "fl - per_step"
  note res = Cons.prems(1)
  have pass: "?m \<le> acc" using Cons.prems(4,5) by simp
  have dr: "distinct (concat rest)" and dg: "distinct grp"
    and disj: "set grp \<inter> set (concat rest) = {}"
    using Cons.prems(2) by simp_all
  have ner: "\<forall>g\<in>set rest. g \<noteq> []" and ne: "grp \<noteq> []" using Cons.prems(3) by simp_all
  have fin: "?m - real (length rest) * per_step = fl - real (length (grp # rest)) * per_step"
    by (simp add: algebra_simps)
  show ?case
  proof (cases "b1 < 3")
    case True
    have "step3a_loop orc w d grp ?m act b1 acc prev lg = Some (Inr (act, acc, prev, lg))"
      using pass True by (rule step3a_loop_stop(1))
    then have r: "step3a_groups orc w d b1 per_step rest ?m act acc prev lg
        = Some (Inr (act3, acc3, lg3))" using res by simp
    have e: "\<forall>i\<in>set (concat rest). i < length act \<longrightarrow> act ! i = b1"
      using Cons.prems(6) by simp
    from Cons.IH[OF r dr ner Cons.prems(4) pass e Cons.prems(7)] show ?thesis
      unfolding fin .
  next
    case False
    have rg: "\<forall>i\<in>set grp. i < length act"
    proof (rule ccontr)
      assume "\<not> (\<forall>i\<in>set grp. i < length act)"
      from step3a_loop_index_error[OF pass False this, of orc w d prev lg] res
      show False by auto
    qed
    have eqc: "\<forall>i\<in>set grp. act ! i = b1" using rg Cons.prems(6) by simp
    have c3: "3 \<le> b1" using False by simp
    from step3a_loop_summary[OF dg rg ne eqc pass c3, of orc w d prev lg]
    obtain k acc' prev' lg' where
      k: "step3a_loop orc w d grp ?m act b1 acc prev lg
             = Some (Inr (lowered_group act grp k, acc', prev', lg'))"
        "2 \<le> b1 - int k" "?m \<le> acc'"
      by blast
    let ?act' = "lowered_group act grp k"
    have r: "step3a_groups orc w d b1 per_step rest ?m ?act' acc' prev' lg'
        = Some (Inr (act3, acc3, lg3))" using res k(1) by simp
    have e: "\<forall>i\<in>set (concat rest). i < length ?act' \<longrightarrow> ?act' ! i = b1"
    proof (intro ballI impI)
      fix i assume i: "i \<in> set (concat rest)" "i < length ?act'"
      then have "i \<notin> set grp" using disj by auto
      moreover have il: "i < length act" using i(2) by (simp add: lowered_group_simps(2))
      ultimately have "?act' ! i = act ! i" by (simp add: lowered_group_simps(3))
      moreover have "act ! i = b1" using Cons.prems(6) i(1) il by simp
      ultimately show "?act' ! i = b1" by simp
    qed
    have lo: "min 2 b1 \<le> b1 - int k" using k(2) by simp
    have g6: "\<forall>i\<in>set grp. i < length act \<longrightarrow> act ! i = b1" using Cons.prems(6) by simp
    have b: "\<forall>x\<in>set ?act'. min 2 b1 \<le> x \<and> x \<le> b1"
      by (rule lowered_group_bounds[OF Cons.prems(7) g6 lo])
    from Cons.IH[OF r dr ner Cons.prems(4) k(3) e b] show ?thesis
      unfolding fin by (simp add: lowered_group_simps(2))
  qed
qed


lemma act_groups_nonempty: "\<forall>g\<in>set (act_sqnr_grouped_index info). g \<noteq> []"
proof (cases "4 < length (act_sqnr_sorted info)")
  case True
  define n where "n = length (act_sqnr_sorted info)"
  have "0 < n div 4" "n div 4 < 2 * (n div 4)" "2 * (n div 4) < 3 * (n div 4)" "3 * (n div 4) < n"
    using True unfolding n_def by simp_all
  then show ?thesis using True
    unfolding act_sqnr_grouped_index_def Let_def n_def by auto
next
  case False
  then show ?thesis unfolding act_sqnr_grouped_index_def Let_def by simp
qed

lemma act_groups_distinct: "distinct (concat (act_sqnr_grouped_index info))"
proof -
  define xs where "xs = map (\<lambda>(i, (key, v)). (key, v, i)) (enumerate 0 info)"
  have "map (\<lambda>tup. snd (snd tup)) xs = map fst (enumerate 0 info)"
    unfolding xs_def by (simp add: case_prod_beta o_def)
  then have "distinct (map (\<lambda>tup. snd (snd tup)) xs)"
    by (simp only: map_fst_enumerate distinct_upt)
  then have "distinct xs \<and> inj_on (\<lambda>tup. snd (snd tup)) (set xs)" by (simp add: distinct_map)
  then have "distinct (map (\<lambda>tup. snd (snd tup)) (sort_key (\<lambda>tup. fst (snd tup)) xs))"
    by (simp add: distinct_map)
  then show ?thesis unfolding act_groups_concat act_sqnr_sorted_def xs_def .
qed

lemma step3a_bounds:
  assumes res: "step3a orc m (act_sqnr_grouped_index info) w (replicate n b1) d acc lg
                  = Some (Inr (act3, acc3, lg3))"
    and pass: "m \<le> acc"
  shows "length act3 = n \<and> (\<forall>x\<in>set act3. min 2 b1 \<le> x \<and> x \<le> b1) \<and> m \<le> acc3"
proof -
  let ?gs = "act_sqnr_grouped_index info"
  have gne: "?gs \<noteq> []"
  proof
    assume "?gs = []"
    then show False using res by (simp add: step3a_def py_truediv_def)
  qed
  have nne: "replicate n b1 \<noteq> []"
  proof
    assume "replicate n b1 = []"
    then show False using res gne by (simp add: step3a_def py_truediv_def py_index_def)
  qed
  then have n0: "0 < n" by simp
  define per_step where "per_step = (acc - m) * 55 / 100 / real (length ?gs)"
  have ps: "0 \<le> per_step" unfolding per_step_def using pass by simp
  have r: "step3a_groups orc w d b1 per_step ?gs acc (replicate n b1) acc None lg
      = Some (Inr (act3, acc3, lg3))"
    using res n0 unfolding step3a_budget[OF gne nne] per_step_def by simp
  have e: "\<forall>i\<in>set (concat ?gs). i < length (replicate n b1) \<longrightarrow> replicate n b1 ! i = b1"
    by simp
  have b: "\<forall>x\<in>set (replicate n b1). min 2 b1 \<le> x \<and> x \<le> b1" by simp
  have le: "acc \<le> acc" by simp
  note t = step3a_groups_bounds[OF r act_groups_distinct act_groups_nonempty ps le e b]
  have l: "real (length ?gs) \<noteq> 0" using gne by simp
  have "real (length ?gs) * per_step = (acc - m) * 55 / 100"
    unfolding per_step_def using l by simp
  then have "m \<le> acc - real (length ?gs) * per_step" using pass by simp
  then have "m \<le> acc3" using conjunct2[OF conjunct2[OF t]] by simp
  then show ?thesis using conjunct1[OF t] conjunct1[OF conjunct2[OF t]] by simp
qed


lemma update_dr_bits_id:
  assumes "length dr = length drq"
  shows "update_dr_bits dr [0..<length drq] drq = drq"
proof -
  have f: "fold (\<lambda>x bs. bs[[0..<length drq] ! x := drq ! x]) [0..<j] dr
      = take j drq @ drop j dr" if "j \<le> length drq" for j
    using that
  proof (induction j)
    case 0
    then show ?case by simp
  next
    case (Suc j)
    then have j: "j < length drq" by simp
    have "(take j drq @ drop j dr)[j := drq ! j] = take (Suc j) drq @ drop (Suc j) dr"
      using j assms
      by (simp add: list_update_append take_Suc_conv_app_nth upd_conv_take_nth_drop
            drop_Suc drop_tl[symmetric])
    then show ?case using Suc j by simp
  qed
  show ?thesis unfolding update_dr_bits_def using f[of "length drq"] assms by simp
qed

lemma step4a_loop_bounds:
  assumes "step4a_loop orc w a [0..<length drq] l m drq drq acc prev lg
             = Inr (drq', dr', acc', prev', lg')"
    and "l < length drq" and "drq ! l \<le> b1"
    and "(m \<le> acc \<and> (drq ! l = b1 \<or> 2 \<le> drq ! l))
       \<or> (\<not> m \<le> acc \<and> drq ! l < b1 \<and> min 2 b1 \<le> drq ! l + 1 \<and> (\<exists>p. prev = Some p \<and> m \<le> p))"
  shows "\<exists>v. drq' = drq[l := v] \<and> dr' = drq' \<and> min 2 b1 \<le> v \<and> v \<le> b1 \<and> m \<le> acc'"
  using assms
proof (induction "nat (drq ! l)" arbitrary: drq acc prev lg rule: less_induct)
  case less
  note res = less.prems(1) and l = less.prems(2) and ub = less.prems(3) and st = less.prems(4)
  let ?b = "drq ! l"
  have pi: "py_index drq l = Inr ?b" using l by (simp add: py_index_def)
  show ?case
  proof (cases "m \<le> acc")
    case pass: True
    then have lob: "?b = b1 \<or> 2 \<le> ?b" using st by blast
    show ?thesis
    proof (cases "?b < 3")
      case True
      have "step4a_loop orc w a [0..<length drq] l m drq drq acc prev lg
          = Inr (drq, drq, acc, prev, lg)"
        using pass True pi by (subst step4a_loop.simps) simp
      then have e: "drq' = drq" "dr' = drq" "acc' = acc" using res by simp_all
      have "min 2 b1 \<le> ?b" using lob by auto
      then have "drq' = drq[l := ?b] \<and> dr' = drq' \<and> min 2 b1 \<le> ?b \<and> ?b \<le> b1 \<and> m \<le> acc'"
        using e ub pass by simp
      then show ?thesis by (rule exI)
    next
      case False
      let ?drq1 = "drq[l := ?b - 1]"
      have len1: "length ?drq1 = length drq" by simp
      have up: "update_dr_bits drq [0..<length drq] ?drq1 = ?drq1"
        using update_dr_bits_id[of drq ?drq1] by simp
      have step: "step4a_loop orc w a [0..<length drq] l m drq drq acc prev lg
          = step4a_loop orc w a [0..<length ?drq1] l m ?drq1 ?drq1 (orc (w, a, ?drq1)) (Some acc)
              (lg @ [(w, a, ?drq1)])"
        using pass False pi up
        by (subst step4a_loop.simps) (simp add: Let_def quantized_test_def)
      have r1: "step4a_loop orc w a [0..<length ?drq1] l m ?drq1 ?drq1 (orc (w, a, ?drq1))
            (Some acc) (lg @ [(w, a, ?drq1)]) = Inr (drq', dr', acc', prev', lg')"
        using res step by simp
      have v1: "?drq1 ! l = ?b - 1" using l by simp
      have lt: "nat (?drq1 ! l) < nat ?b" using False v1 by simp
      have l1: "l < length ?drq1" using l by simp
      have ub1: "?drq1 ! l \<le> b1" using ub v1 by simp
      have st1: "(m \<le> orc (w, a, ?drq1) \<and> (?drq1 ! l = b1 \<or> 2 \<le> ?drq1 ! l))
         \<or> (\<not> m \<le> orc (w, a, ?drq1) \<and> ?drq1 ! l < b1 \<and> min 2 b1 \<le> ?drq1 ! l + 1
              \<and> (\<exists>p. Some acc = Some p \<and> m \<le> p))"
        using False ub pass unfolding v1 by auto
      from less.hyps[OF lt r1 l1 ub1 st1] obtain v where
        v: "drq' = ?drq1[l := v]" "dr' = drq'" "min 2 b1 \<le> v" "v \<le> b1" "m \<le> acc'" by blast
      have "drq' = drq[l := v] \<and> dr' = drq' \<and> min 2 b1 \<le> v \<and> v \<le> b1 \<and> m \<le> acc'"
        using v by simp
      then show ?thesis by (rule exI)
    qed
  next
    case False
    then obtain p where p: "prev = Some p" "m \<le> p" and lt: "?b < b1" and lo: "min 2 b1 \<le> ?b + 1"
      using st by blast
    let ?drq1 = "drq[l := ?b + 1]"
    have up: "update_dr_bits drq [0..<length drq] ?drq1 = ?drq1"
      using update_dr_bits_id[of drq ?drq1] by simp
    have "step4a_loop orc w a [0..<length drq] l m drq drq acc prev lg
        = Inr (?drq1, ?drq1, p, prev, lg)"
      using False pi up p(1) by (subst step4a_loop.simps) (simp add: Let_def)
    then have e: "drq' = ?drq1" "dr' = ?drq1" "acc' = p" using res by simp_all
    have "drq' = drq[l := ?b + 1] \<and> dr' = drq' \<and> min 2 b1 \<le> ?b + 1 \<and> ?b + 1 \<le> b1 \<and> m \<le> acc'"
      using e lt lo p(2) by simp
    then show ?thesis by (rule exI)
  qed
qed

lemma step4a_layers_bounds:
  assumes "step4a_layers orc w a [0..<length drq] per_step ls fl drq drq acc prev lg
             = Inr (dr4, acc4, lg4)"
    and "distinct ls" and "\<forall>i\<in>set ls. i < length drq \<and> drq ! i = b1"
    and "0 \<le> per_step" and "fl \<le> acc"
    and "\<forall>x\<in>set drq. min 2 b1 \<le> x \<and> x \<le> b1"
  shows "length dr4 = length drq \<and> (\<forall>x\<in>set dr4. min 2 b1 \<le> x \<and> x \<le> b1)"
  using assms
proof (induction ls arbitrary: fl drq acc prev lg)
  case Nil
  then show ?case by simp
next
  case (Cons l rest)
  let ?m = "fl - per_step"
  note res = Cons.prems(1)
  have pass: "?m \<le> acc" using Cons.prems(4,5) by simp
  have l: "l < length drq" "drq ! l = b1" using Cons.prems(3) by simp_all
  show ?case
  proof (cases "step4a_loop orc w a [0..<length drq] l ?m drq drq acc prev lg")
    case (Inl e)
    then show ?thesis using res by simp
  next
    case (Inr r)
    obtain drq' dr' acc' prev' lg' where r: "r = (drq', dr', acc', prev', lg')"
      by (cases r) auto
    have ub: "drq ! l \<le> b1" using l(2) by simp
    have st: "(?m \<le> acc \<and> (drq ! l = b1 \<or> 2 \<le> drq ! l))
       \<or> (\<not> ?m \<le> acc \<and> drq ! l < b1 \<and> min 2 b1 \<le> drq ! l + 1
            \<and> (\<exists>p. prev = Some p \<and> ?m \<le> p))"
      using pass l(2) by simp
    from step4a_loop_bounds[OF Inr[unfolded r] l(1) ub st] obtain v where
      v: "drq' = drq[l := v]" "dr' = drq'" "min 2 b1 \<le> v" "v \<le> b1" "?m \<le> acc'" by blast
    have len: "length drq' = length drq" using v(1) by simp
    have r2: "step4a_layers orc w a [0..<length drq'] per_step rest ?m drq' drq' acc' prev' lg'
        = Inr (dr4, acc4, lg4)"
      using res Inr r v(2) len by simp
    have d: "distinct rest" "l \<notin> set rest" using Cons.prems(2) by simp_all
    have e: "\<forall>i\<in>set rest. i < length drq' \<and> drq' ! i = b1"
    proof
      fix i assume i: "i \<in> set rest"
      then have "i \<noteq> l" using d(2) by auto
      then show "i < length drq' \<and> drq' ! i = b1" using Cons.prems(3) i v(1) by simp
    qed
    have b: "\<forall>x\<in>set drq'. min 2 b1 \<le> x \<and> x \<le> b1"
    proof
      fix x assume "x \<in> set drq'"
      then have "x \<in> insert v (set drq)" using v(1) set_update_subset_insert by fastforce
      then show "min 2 b1 \<le> x \<and> x \<le> b1" using v(3,4) Cons.prems(6) by auto
    qed
    from Cons.IH[OF r2 d(1) e Cons.prems(4) v(5) b] show ?thesis using len by simp
  qed
qed

lemma step4a_bounds:
  assumes res: "step4a orc m leaves w a (replicate (length (filter routing leaves)) b1) acc lg
                  = Inr (dr4, acc4, lg4)"
    and pass: "m \<le> acc"
  shows "length dr4 = length (filter routing leaves) \<and> (\<forall>x\<in>set dr4. min 2 b1 \<le> x \<and> x \<le> b1)"
proof -
  define K where "K = length (filter routing leaves)"
  define dr where "dr = replicate K b1"
  have drq: "map (\<lambda>x. dr ! x) [0..<K] = dr"
    unfolding dr_def by (rule nth_equalityI) simp_all
  have ld: "length dr = K" by (simp add: dr_def)
  have eq: "step4a orc m leaves w a dr acc lg =
      (case py_truediv (acc - m) (real K) of
         Inl e \<Rightarrow> Inl e
       | Inr ps \<Rightarrow> step4a_layers orc w a [0..<K] ps [0..<K] acc dr dr acc None lg)"
    unfolding step4a_def Let_def K_def[symmetric] drq ld by simp
  note res' = res[folded K_def, folded dr_def, unfolded eq]
  have K0: "K \<noteq> 0"
  proof
    assume "K = 0"
    then show False using res' by (simp add: py_truediv_def)
  qed
  define per_step where "per_step = (acc - m) / real K"
  have ps: "0 \<le> per_step" unfolding per_step_def using pass by simp
  have r: "step4a_layers orc w a [0..<length dr] per_step [0..<K] acc dr dr acc None lg
      = Inr (dr4, acc4, lg4)"
    using res' K0 by (simp add: py_truediv_def ld per_step_def)
  have d: "distinct [0..<K]" by simp
  have e: "\<forall>i\<in>set [0..<K]. i < length dr \<and> dr ! i = b1" by (simp add: dr_def)
  have b: "\<forall>x\<in>set dr. min 2 b1 \<le> x \<and> x \<le> b1" by (simp add: dr_def)
  have le: "acc \<le> acc" by simp
  from step4a_layers_bounds[OF r d e ps le b] show ?thesis by (simp add: ld K_def)
qed


lemma branchB_return_configs:
  assumes "branchB_return orc tot nums a d mw macc w2 acc2 lg0 = Inr (out, lg)"
  shows "\<exists>c1 c2. out = Two_models c1 c2
      \<and> weight_bits c1 = mw \<and> act_bits c1 = a \<and> dr_bits c1 = d
      \<and> weight_bits c2 = w2 \<and> act_bits c2 = a \<and> dr_bits c2 = d"
  using assms unfolding branchB_return_def quantized_test_def Let_def
  by (auto split: sum.splits)

lemma branchA_configs:
  assumes "branchA orc m leaves groups tot nums w a d acc lg0 = Some (Inr (out, lg))"
  shows "\<exists>c act3 acc3 lg3 dr4 acc4 lg4. out = Satisfied c
      \<and> weight_bits c = w \<and> act_bits c = act3 \<and> dr_bits c = dr4
      \<and> step3a orc m groups w a d acc lg0 = Some (Inr (act3, acc3, lg3))
      \<and> step4a orc m leaves w act3 d acc3 lg3 = Inr (dr4, acc4, lg4)"
  using assms unfolding branchA_def
  by (auto split: option.splits sum.splits)

text \<open>
  Claim C2, as the code has it. Stage 1 always returns a bit-width between 1 and 32. In
  every configuration that a run returns (one when both constraints are satisfied, two
  when they conflict) every weight bit-width is at least 1, and every activation and
  dynamic-routing bit-width is at most the bit-width of Stage 1, hence at most 32, and
  at least 2, or at least the bit-width of Stage 1 when Stage 1 returned 1 bit. The
  weights have no upper bound of 32: Stage 2 starts from the floor of the budget in
  bits divided by the number of weights, and the raise phase adds to it.
\<close>

theorem output_bitwidth_bounds:
  assumes run: "qcapsnets orc md top_accuracy accuracy_tolerance memory_budget
                  = Some (Inr (out, lg))"
  shows "\<exists>r1 lg1. step1 orc (leaf_children md) (step1_min_acc top_accuracy accuracy_tolerance) []
                     = Some (Inr (r1, lg1))
     \<and> 1 \<le> step1_bits r1 \<and> step1_bits r1 \<le> 32
     \<and> (\<forall>c\<in>set (returned_configs out).
          (\<forall>b\<in>set (weight_bits c). 1 \<le> b)
        \<and> (\<forall>b\<in>set (act_bits c). min 2 (step1_bits r1) \<le> b \<and> b \<le> step1_bits r1)
        \<and> (\<forall>b\<in>set (dr_bits c). min 2 (step1_bits r1) \<le> b \<and> b \<le> step1_bits r1))"
proof -
  let ?m = "minimum_accuracy top_accuracy accuracy_tolerance"
  let ?leaves = "leaf_children md"
  let ?nums = "number_of_weights_inlayers ?leaves"
  have q: "quantization_function_activations md" "quantization_function_weights md"
  proof -
    show "quantization_function_activations md"
      using run by (cases "quantization_function_activations md") (simp_all add: qcapsnets_def)
    then show "quantization_function_weights md"
      using run by (cases "quantization_function_weights md") (simp_all add: qcapsnets_def)
  qed
  from step1_total[of orc ?leaves "step1_min_acc top_accuracy accuracy_tolerance" "[]"]
  obtain r1 lg1 where
    s1: "step1 orc ?leaves (step1_min_acc top_accuracy accuracy_tolerance) [] = Some (Inr (r1, lg1))"
    and b1: "1 \<le> step1_bits r1" "step1_bits r1 \<le> 32"
    by blast
  let ?b1 = "step1_bits r1"
  let ?a = "replicate (length ?leaves) ?b1"
  let ?d = "replicate (length (filter routing ?leaves)) ?b1"
  let ?s2 = "step2 orc ?m ?nums memory_budget (sqnr_tuples (weights_scale_factors_original md))
               ?a ?a ?d lg1"
  note after = run[unfolded qcapsnets_after_step1[OF q s1]]
  have nn: "\<forall>x\<in>set ?nums. 0 \<le> x" by (simp add: number_of_weights_inlayers_def)
  have ab: "\<forall>b\<in>set ?a. min 2 ?b1 \<le> b \<and> b \<le> ?b1" by simp
  have db: "\<forall>b\<in>set ?d. min 2 ?b1 \<le> b \<and> b \<le> ?b1" by simp
  have cfg: "\<forall>c\<in>set (returned_configs out).
          (\<forall>b\<in>set (weight_bits c). 1 \<le> b)
        \<and> (\<forall>b\<in>set (act_bits c). min 2 ?b1 \<le> b \<and> b \<le> ?b1)
        \<and> (\<forall>b\<in>set (dr_bits c). min 2 ?b1 \<le> b \<and> b \<le> ?b1)"
  proof (cases ?s2)
    case None
    then show ?thesis using after by simp
  next
    case (Some y)
    show ?thesis
    proof (cases y)
      case (Inl e)
      then show ?thesis using after Some by simp
    next
      case (Inr z)
      obtain res lg2 where z: "z = (res, lg2)" by (cases z) auto
      have s2: "?s2 = Some (Inr (res, lg2))" using Some Inr z by simp
      note bnd = step2_result_bounds[OF s2 nn]
      show ?thesis
      proof (cases res)
        case (Step2_error mb)
        then have "out = Budget_error mb" using after s2 by simp
        then show ?thesis by simp
      next
        case (Step2_branchB mw macc w2 acc2)
        then have "branchB_return orc (int (tot_numer_of_weights md) * 32) ?nums ?a ?d
            mw macc w2 acc2 lg2 = Inr (out, lg)" using after s2 by simp
        from branchB_return_configs[OF this] obtain c1 c2 where
          c: "out = Two_models c1 c2" "weight_bits c1 = mw" "act_bits c1 = ?a" "dr_bits c1 = ?d"
            "weight_bits c2 = w2" "act_bits c2 = ?a" "dr_bits c2 = ?d" by blast
        have w: "(\<forall>x\<in>set mw. 1 \<le> x) \<and> (\<forall>x\<in>set w2. 1 \<le> x)"
          using bnd Step2_branchB by simp
        show ?thesis unfolding c(1) returned_configs.simps
        proof
          fix x assume "x \<in> set [c1, c2]"
          then have "x = c1 \<or> x = c2" by simp
          then show "(\<forall>b\<in>set (weight_bits x). 1 \<le> b)
              \<and> (\<forall>b\<in>set (act_bits x). min 2 ?b1 \<le> b \<and> b \<le> ?b1)
              \<and> (\<forall>b\<in>set (dr_bits x). min 2 ?b1 \<le> b \<and> b \<le> ?b1)"
            using w ab db c(2-7) by metis
        qed
      next
        case (Step2_satisfied w2 acc2)
        then have "branchA orc ?m ?leaves (act_sqnr_grouped_index (act_info_sqnr md))
            (int (tot_numer_of_weights md) * 32) ?nums w2 ?a ?d acc2 lg2 = Some (Inr (out, lg))"
          using after s2 by simp
        from branchA_configs[OF this] obtain c act3 acc3 lg3 dr4 acc4 lg4 where
          c: "out = Satisfied c" "weight_bits c = w2" "act_bits c = act3" "dr_bits c = dr4"
            "step3a orc ?m (act_sqnr_grouped_index (act_info_sqnr md)) w2 ?a ?d acc2 lg2
               = Some (Inr (act3, acc3, lg3))"
            "step4a orc ?m ?leaves w2 act3 ?d acc3 lg3 = Inr (dr4, acc4, lg4)" by blast
        have w: "(\<forall>x\<in>set w2. 1 \<le> x)" and pass: "?m \<le> acc2"
          using bnd Step2_satisfied by simp_all
        note t3 = step3a_bounds[OF c(5) pass]
        have a3: "\<forall>x\<in>set act3. min 2 ?b1 \<le> x \<and> x \<le> ?b1" using conjunct1[OF conjunct2[OF t3]] .
        have p3: "?m \<le> acc3" using conjunct2[OF conjunct2[OF t3]] .
        have d4: "\<forall>x\<in>set dr4. min 2 ?b1 \<le> x \<and> x \<le> ?b1"
          using conjunct2[OF step4a_bounds[OF c(6) p3]] .
        show ?thesis unfolding c(1) returned_configs.simps
        proof
          fix x assume "x \<in> set [c]"
          then have "x = c" by simp
          then show "(\<forall>b\<in>set (weight_bits x). 1 \<le> b)
              \<and> (\<forall>b\<in>set (act_bits x). min 2 ?b1 \<le> b \<and> b \<le> ?b1)
              \<and> (\<forall>b\<in>set (dr_bits x). min 2 ?b1 \<le> b \<and> b \<le> ?b1)"
            using w a3 d4 c(2-4) by metis
        qed
      qed
    qed
  qed
  show ?thesis using s1 b1 cfg by blast
qed


theorem output_bitwidth_bounds_witness:
  "qcapsnets two_layer_oracle two_layer_model 66 0 (100 / 1048576)
     = Some (Inr (Satisfied
         \<lparr>weight_bits = [4, 4], act_bits = [2, 2], dr_bits = [2], accuracy = 66,
           wmem_reduction = 8\<rparr>,
         [([32, 32], [32, 32], [32]), ([16, 16], [16, 16], [16]),
          ([8, 8], [8, 8], [8]), ([4, 4], [4, 4], [4]),
          ([6, 6], [6, 6], [6]), ([5, 5], [5, 5], [5]),
          ([4, 4], [5, 5], [5]), ([4, 4], [5, 4], [5]),
          ([4, 4], [5, 3], [5]), ([4, 4], [5, 2], [5]),
          ([4, 4], [4, 2], [5]), ([4, 4], [3, 2], [5]),
          ([4, 4], [2, 2], [5]), ([4, 4], [2, 2], [4]),
          ([4, 4], [2, 2], [3]), ([4, 4], [2, 2], [2])]))
   \<and> (\<exists>r1 lg1. step1 two_layer_oracle (leaf_children two_layer_model) (step1_min_acc 66 0) []
                     = Some (Inr (r1, lg1))
        \<and> 1 \<le> step1_bits r1 \<and> step1_bits r1 \<le> 32
        \<and> (\<forall>c\<in>set (returned_configs (Satisfied
                \<lparr>weight_bits = [4, 4], act_bits = [2, 2], dr_bits = [2], accuracy = 66,
                  wmem_reduction = 8\<rparr>)).
             (\<forall>b\<in>set (weight_bits c). 1 \<le> b)
           \<and> (\<forall>b\<in>set (act_bits c). min 2 (step1_bits r1) \<le> b \<and> b \<le> step1_bits r1)
           \<and> (\<forall>b\<in>set (dr_bits c). min 2 (step1_bits r1) \<le> b \<and> b \<le> step1_bits r1)))"
proof -
  have run: "qcapsnets two_layer_oracle two_layer_model 66 0 (100 / 1048576)
     = Some (Inr (Satisfied
         \<lparr>weight_bits = [4, 4], act_bits = [2, 2], dr_bits = [2], accuracy = 66,
           wmem_reduction = 8\<rparr>,
         [([32, 32], [32, 32], [32]), ([16, 16], [16, 16], [16]),
          ([8, 8], [8, 8], [8]), ([4, 4], [4, 4], [4]),
          ([6, 6], [6, 6], [6]), ([5, 5], [5, 5], [5]),
          ([4, 4], [5, 5], [5]), ([4, 4], [5, 4], [5]),
          ([4, 4], [5, 3], [5]), ([4, 4], [5, 2], [5]),
          ([4, 4], [4, 2], [5]), ([4, 4], [3, 2], [5]),
          ([4, 4], [2, 2], [5]), ([4, 4], [2, 2], [4]),
          ([4, 4], [2, 2], [3]), ([4, 4], [2, 2], [2])]))"
    by (simp add: two_layer_eval)
  show ?thesis by (rule conjI[OF run output_bitwidth_bounds[OF run]])
qed

text \<open>
  The claim as stated fails on the example with a budget of one megabyte: the weights
  returned have 41943 bits, above 32, and the activations and the routing have 2 bits,
  below 3.
\<close>

theorem output_bitwidth_counterexample:
  "qcapsnets two_layer_oracle two_layer_model 64 0 1
     = Some (Inr (Satisfied
         \<lparr>weight_bits = [41943, 41943], act_bits = [2, 2], dr_bits = [2],
           accuracy = 125949 / 2, wmem_reduction = 32 / 41943\<rparr>,
         [([32, 32], [32, 32], [32]), ([16, 16], [16, 16], [16]),
          ([8, 8], [8, 8], [8]), ([4, 4], [4, 4], [4]),
          ([2, 2], [2, 2], [2]), ([3, 3], [3, 3], [3]),
          ([41943, 41943], [3, 3], [3]), ([41943, 41943], [3, 2], [3]),
          ([41943, 41943], [2, 2], [3]), ([41943, 41943], [2, 2], [2])]))
   \<and> (32 :: int) < [41943, 41943] ! 0 \<and> [2, 2] ! 0 < (3 :: int) \<and> [2] ! 0 < (3 :: int)"
  by (simp add: two_layer_eval)

end
